theory Spec2Isabelle
  imports Main "HOL-Library.Char_ord"
begin

section \<open>Filename metadata of the rach3 dataset: \<open>rach3datautils/utils/path.py\<close>\<close>

text \<open>
  The module \<open>path.py\<close> holds the class \<open>PathUtils\<close>: predicates and extractors that
  read metadata out of the name of a file, and \<open>get_type\<close>, which classifies a path.
  Every function takes a \<open>pathlib.Path\<close> and looks only at its text; the one function
  that reads the file system, \<open>get_files_by_type\<close>, is not modelled.

  File names are modelled over 8-bit characters (\<open>string\<close>); on these the regular
  expression class \<open>\d\<close> and the range \<open>[0-9]\<close> are both the ten ASCII digits.
  What the module takes from the Python library (\<open>str.split\<close>, indexing and slicing,
  \<open>int\<close>, \<open>re.search\<close>, \<open>pathlib\<close>, \<open>datetime.strptime\<close>) is modelled here as far as
  the module uses it.
\<close>

subsection \<open>Errors\<close>

text \<open>
  The exceptions the module can raise. \<open>re.search(...).group()\<close> on a failed search is
  an \<open>AttributeError\<close> of \<open>None\<close> (\<open>NoneTypeAttributeError\<close>); the explicit
  \<open>raise AttributeError("Cannot get split_num_id ...")\<close> of \<open>get_split_num_id\<close> is
  \<open>SplitTooLargeError\<close>. \<open>IndexError\<close> is an index out of range, \<open>ValueError\<close> is
  raised by \<open>datetime.strptime\<close>, \<open>OverflowError\<close> by \<open>time.mktime\<close>.
\<close>

datatype error =
    IdentityError
  | NoneTypeAttributeError
  | SplitTooLargeError
  | IndexError
  | ValueError
  | OverflowError

definition bind_err :: "error + 'a \<Rightarrow> ('a \<Rightarrow> error + 'b) \<Rightarrow> error + 'b" where
  "bind_err m f = (case m of Inl e \<Rightarrow> Inl e | Inr x \<Rightarrow> f x)"

subsection \<open>Python strings and lists\<close>

text \<open>\<open>str.split(sep)\<close> with a one-character separator: empty pieces are kept, and the
  empty string splits into one empty piece.\<close>

fun split_on :: "char \<Rightarrow> string \<Rightarrow> string list" where
  "split_on c [] = [[]]"
| "split_on c (x # xs) =
     (if x = c then [] # split_on c xs
      else (case split_on c xs of
              t # ts \<Rightarrow> (x # t) # ts
            | [] \<Rightarrow> [[x]]))"

text \<open>\<open>xs[0]\<close> and \<open>xs[-1]\<close>: both raise \<open>IndexError\<close> on an empty sequence.\<close>

definition py_first :: "'a list \<Rightarrow> error + 'a" where
  "py_first xs = (case xs of [] \<Rightarrow> Inl IndexError | x # _ \<Rightarrow> Inr x)"

definition py_last :: "'a list \<Rightarrow> error + 'a" where
  "py_last xs = (if xs = [] then Inl IndexError else Inr (last xs))"

text \<open>The slice \<open>s[-n:]\<close>: the last \<open>n\<close> characters, the whole string when it is shorter.\<close>

definition py_suffix_slice :: "nat \<Rightarrow> 'a list \<Rightarrow> 'a list" where
  "py_suffix_slice n s = drop (length s - n) s"

definition is_digit :: "char \<Rightarrow> bool" where
  "is_digit c = (CHR ''0'' \<le> c \<and> c \<le> CHR ''9'')"

definition digit_val :: "char \<Rightarrow> int" where
  "digit_val c = of_char c - 48"

text \<open>\<open>int(s)\<close> for a string of decimal digits, the only argument it is given here.\<close>

definition py_int :: "string \<Rightarrow> int" where
  "py_int s = foldl (\<lambda>acc c. acc * 10 + digit_val c) 0 s"

subsection \<open>Regular expressions\<close>

text \<open>
  The fragment of \<open>re\<close> the module uses, with the backtracking semantics of
  \<open>re.search\<close>: a match state is the position reached and the text left; \<open>rmatch\<close>
  lists the states in which a match of the expression can end, in the order in which the
  engine tries them. \<open>^\<close> matches at position 0 only; \<open>$\<close> matches at the end of the
  text and also just before a newline that ends the text; \<open>r{m,n}\<close> is greedy.
\<close>

datatype regex =
    Lit char
  | Digit
  | Range char char
  | Bol
  | Eol
  | Eps
  | Seq regex regex
  | Alt regex regex
  | Rep nat nat regex
  | Grp regex

type_synonym mstate = "nat \<times> string"

definition step_if :: "(char \<Rightarrow> bool) \<Rightarrow> mstate \<Rightarrow> mstate list" where
  "step_if P st =
     (case snd st of [] \<Rightarrow> [] | x # xs \<Rightarrow> if P x then [(Suc (fst st), xs)] else [])"

primrec rep_greedy :: "(mstate \<Rightarrow> mstate list) \<Rightarrow> nat \<Rightarrow> nat \<Rightarrow> mstate \<Rightarrow> mstate list" where
  "rep_greedy m lo 0 st = (if lo = 0 then [st] else [])"
| "rep_greedy m lo (Suc n) st =
     concat (map (rep_greedy m (lo - 1) n) (m st)) @ (if lo = 0 then [st] else [])"

primrec rmatch :: "regex \<Rightarrow> mstate \<Rightarrow> mstate list" where
  "rmatch (Lit c) st = step_if (\<lambda>x. x = c) st"
| "rmatch Digit st = step_if is_digit st"
| "rmatch (Range lo hi) st = step_if (\<lambda>x. lo \<le> x \<and> x \<le> hi) st"
| "rmatch Bol st = (if fst st = 0 then [st] else [])"
| "rmatch Eol st = (if snd st = [] \<or> snd st = [CHR 0x0A] then [st] else [])"
| "rmatch Eps st = [st]"
| "rmatch (Seq r1 r2) st = concat (map (rmatch r2) (rmatch r1 st))"
| "rmatch (Alt r1 r2) st = rmatch r1 st @ rmatch r2 st"
| "rmatch (Rep lo hi r) st = rep_greedy (rmatch r) lo hi st"
| "rmatch (Grp r) st = rmatch r st"

text \<open>\<open>re.search(r, s)\<close>: the first match at the leftmost position where the expression
  matches; the result is \<open>.group()\<close> of the match, \<open>None\<close> when there is none.\<close>

fun search_from :: "regex \<Rightarrow> nat \<Rightarrow> string \<Rightarrow> string option" where
  "search_from r i s =
     (case rmatch r (i, s) of
        (j, _) # _ \<Rightarrow> Some (take (j - i) s)
      | [] \<Rightarrow> (case s of [] \<Rightarrow> None | _ # xs \<Rightarrow> search_from r (Suc i) xs))"

definition re_search :: "regex \<Rightarrow> string \<Rightarrow> string option" where
  "re_search r s = search_from r 0 s"

definition seqs :: "regex list \<Rightarrow> regex" where
  "seqs rs = foldr Seq rs Eps"

text \<open>The six patterns of the module.\<close>

definition split_pat :: regex where
  \<comment> \<open>\<open>^split\d{1,2}$\<close>\<close>
  "split_pat = seqs [Bol, Lit CHR ''s'', Lit CHR ''p'', Lit CHR ''l'', Lit CHR ''i'',
                     Lit CHR ''t'', Rep 1 2 Digit, Eol]"

definition session_pat :: regex where
  \<comment> \<open>\<open>(^a|^v)\d\d$\<close>\<close>
  "session_pat = seqs [Grp (Alt (Seq Bol (Lit CHR ''a'')) (Seq Bol (Lit CHR ''v''))),
                       Digit, Digit, Eol]"

definition date_pat :: regex where
  \<comment> \<open>\<open>([0-9]{4})-([0-9]{2})-([0-9]{2})\<close>\<close>
  "date_pat = seqs [Grp (Rep 4 4 (Range CHR ''0'' CHR ''9'')), Lit CHR ''-'',
                    Grp (Rep 2 2 (Range CHR ''0'' CHR ''9'')), Lit CHR ''-'',
                    Grp (Rep 2 2 (Range CHR ''0'' CHR ''9''))]"

definition fileno_a_pat :: regex where
  \<comment> \<open>\<open>a\d{2}\<close>\<close>
  "fileno_a_pat = seqs [Lit CHR ''a'', Rep 2 2 Digit]"

definition fileno_p_pat :: regex where
  \<comment> \<open>\<open>p\d{3}\<close>\<close>
  "fileno_p_pat = seqs [Lit CHR ''p'', Rep 3 3 Digit]"

definition split_no_pat :: regex where
  \<comment> \<open>\<open>\d{1,2}\<close>\<close>
  "split_no_pat = Rep 1 2 Digit"

subsection \<open>Paths\<close>

text \<open>
  A \<open>pathlib\<close> path: its root (\<open>''''\<close> for a relative path, \<open>''/''\<close> for an absolute
  one) and its components. \<open>str_of\<close> is \<open>str(path)\<close>, \<open>name\<close> the final component,
  \<open>suffix\<close> and \<open>stem\<close> split the name at its last dot, unless that dot is the first
  or the last character of the name (\<open>0 < i < len(name) - 1\<close> in \<open>pathlib\<close>).
\<close>

datatype path = Path (root: string) (tail: "string list")

fun join_with :: "string \<Rightarrow> string list \<Rightarrow> string" where
  "join_with sep [] = []"
| "join_with sep [x] = x"
| "join_with sep (x # y # ys) = x @ sep @ join_with sep (y # ys)"

definition str_of :: "path \<Rightarrow> string" where
  "str_of p = (if root p = [] \<and> tail p = [] then ''.'' else root p @ join_with ''/'' (tail p))"

definition name :: "path \<Rightarrow> string" where
  "name p = (if tail p = [] then [] else last (tail p))"

text \<open>\<open>s.rfind(c)\<close>: the index of the last occurrence, \<open>None\<close> for Python's \<open>-1\<close>.\<close>

fun rfind :: "char \<Rightarrow> string \<Rightarrow> nat option" where
  "rfind c [] = None"
| "rfind c (x # xs) =
     (case rfind c xs of
        Some i \<Rightarrow> Some (Suc i)
      | None \<Rightarrow> if x = c then Some 0 else None)"

definition suffix :: "path \<Rightarrow> string" where
  "suffix p =
     (case rfind CHR ''.'' (name p) of
        None \<Rightarrow> []
      | Some i \<Rightarrow> if 0 < i \<and> i < length (name p) - 1 then drop i (name p) else [])"

definition stem :: "path \<Rightarrow> string" where
  "stem p =
     (case rfind CHR ''.'' (name p) of
        None \<Rightarrow> name p
      | Some i \<Rightarrow> if 0 < i \<and> i < length (name p) - 1 then take i (name p) else name p)"

text \<open>The tokens of a path: \<open>file.stem.split("_")\<close>.\<close>

definition tokens :: "path \<Rightarrow> string list" where
  "tokens p = split_on CHR ''_'' (stem p)"

subsection \<open>Predicates and extractors of \<open>PathUtils\<close>\<close>

datatype filetype =
    midi | full_midi | flac | full_flac | mp4 | full_video | video | aac
  | full_audio | audio | trimmed_video | split_midi | split_video | split_flac

definition is_split :: "path \<Rightarrow> bool" where
  "is_split file = list_ex (\<lambda>i. re_search split_pat i \<noteq> None) (tokens file)"

text \<open>\<open>file.stem.split("_")[-1][0]\<close>: the first character of the last token.\<close>

definition last_token_head :: "path \<Rightarrow> error + char" where
  "last_token_head file = bind_err (py_last (tokens file)) py_first"

definition is_valid_video :: "path \<Rightarrow> error + bool" where
  "is_valid_video file =
     bind_err (last_token_head file) (\<lambda>c. Inr (c = CHR ''p'' \<and> suffix file = ''.mp4''))"

definition is_valid_audio :: "path \<Rightarrow> error + bool" where
  "is_valid_audio file =
     bind_err (last_token_head file) (\<lambda>c. Inr (c = CHR ''p'' \<and> suffix file = ''.aac''))"

definition get_session_id :: "path \<Rightarrow> error + string" where
  "get_session_id file = py_first (tokens file)"

fun session_no_loop :: "string list \<Rightarrow> string option" where
  "session_no_loop [] = None"
| "session_no_loop (i # is) =
     (if re_search session_pat i \<noteq> None then Some (''a'' @ py_suffix_slice 2 i)
      else session_no_loop is)"

definition get_session_no :: "path \<Rightarrow> string option" where
  "get_session_no file = session_no_loop (tokens file)"

definition get_date :: "path \<Rightarrow> error + string" where
  "get_date file =
     (case re_search date_pat (name file) of
        None \<Rightarrow> Inl IdentityError
      | Some date \<Rightarrow> Inr date)"

definition is_full_audio :: "path \<Rightarrow> bool" where
  "is_full_audio file = (''full'' \<in> set (tokens file) \<and> suffix file = ''.aac'')"

text \<open>\<open>.group()\<close> of the result of a search.\<close>

definition group :: "string option \<Rightarrow> error + string" where
  "group m = (case m of None \<Rightarrow> Inl NoneTypeAttributeError | Some g \<Rightarrow> Inr g)"

definition get_fileno_a :: "path \<Rightarrow> error + int" where
  "get_fileno_a file =
     bind_err (group (re_search fileno_a_pat (str_of file)))
       (\<lambda>no. Inr (py_int (py_suffix_slice 2 no)))"

definition get_fileno_p :: "path \<Rightarrow> error + int" where
  "get_fileno_p file =
     bind_err (group (re_search fileno_p_pat (str_of file)))
       (\<lambda>no. Inr (py_int (py_suffix_slice 3 no)))"

definition is_trimmed :: "path \<Rightarrow> bool" where
  "is_trimmed file = (''trimmed'' \<in> set (tokens file))"

definition is_warmup :: "path \<Rightarrow> error + bool" where
  "is_warmup file = bind_err (py_first (tokens file)) (\<lambda>t. Inr (t = ''warmup''))"

definition is_valid_flac :: "path \<Rightarrow> error + bool" where
  "is_valid_flac file =
     (if suffix file = ''.flac''
      then bind_err (last_token_head file) (\<lambda>c. Inr (c = CHR ''a''))
      else Inr False)"

definition is_valid_midi :: "path \<Rightarrow> error + bool" where
  "is_valid_midi file =
     (if suffix file = ''.mid''
      then bind_err (last_token_head file) (\<lambda>c. Inr (c = CHR ''a''))
      else Inr False)"

definition is_full_video :: "path \<Rightarrow> error + bool" where
  "is_full_video file =
     bind_err (py_last (tokens file)) (\<lambda>t. Inr (t = ''full'' \<and> suffix file = ''.mp4''))"

definition get_split_no :: "path \<Rightarrow> error + int" where
  "get_split_no file =
     bind_err (py_last (tokens file))
       (\<lambda>t. bind_err (group (re_search split_no_pat t)) (\<lambda>no. Inr (py_int no)))"

subsection \<open>The classifier \<open>get_type\<close>\<close>

text \<open>The result is \<open>Inr None\<close> where the Python function falls off its end.\<close>

definition get_type :: "path \<Rightarrow> error + filetype option" where
  "get_type path =
     (if suffix path = ''.mid'' then
        bind_err (is_valid_midi path) (\<lambda>b.
          if b then Inr (Some full_midi)
          else if is_split path then Inr (Some split_midi)
          else Inr None)
      else if suffix path = ''.flac'' then
        bind_err (is_valid_flac path) (\<lambda>b.
          if b then Inr (Some full_flac)
          else if is_split path then Inr (Some split_flac)
          else Inr None)
      else if suffix path = ''.mp4'' then
        (if is_trimmed path then Inr (Some trimmed_video)
         else bind_err (is_full_video path) (\<lambda>b.
           if b then Inr (Some full_video)
           else bind_err (is_valid_video path) (\<lambda>b.
             if b then Inr (Some video)
             else if is_split path then Inr (Some split_video)
             else Inr None)))
      else if suffix path = ''.aac'' then
        (if is_full_audio path then Inr (Some full_audio)
         else bind_err (is_valid_audio path) (\<lambda>b.
           if b then Inr (Some audio)
           else Inr None))
      else Inr None)"

subsection \<open>Dates and the composite split id\<close>

text \<open>
  \<open>datetime.strptime(date, "%Y-%m-%d")\<close> on a string of the shape \<open>dddd-dd-dd\<close>, which
  is what \<open>get_date\<close> returns: the three fields are read as numbers, and the call raises
  \<open>ValueError\<close> unless they are a date of the proleptic Gregorian calendar with a year
  from 1 to 9999.
\<close>

record date =
  year :: nat
  month :: nat
  day :: nat

definition is_leap :: "nat \<Rightarrow> bool" where
  "is_leap y = (y mod 4 = 0 \<and> (y mod 100 \<noteq> 0 \<or> y mod 400 = 0))"

definition days_in_month :: "nat \<Rightarrow> nat \<Rightarrow> nat" where
  "days_in_month y m =
     (if m = 2 then (if is_leap y then 29 else 28)
      else if m = 4 \<or> m = 6 \<or> m = 9 \<or> m = 11 then 30 else 31)"

definition strptime :: "string \<Rightarrow> error + date" where
  "strptime s =
     (let y = nat (py_int (take 4 s));
          m = nat (py_int (take 2 (drop 5 s)));
          d = nat (py_int (take 2 (drop 8 s)))
      in if 1 \<le> y \<and> 1 \<le> m \<and> m \<le> 12 \<and> 1 \<le> d \<and> d \<le> days_in_month y m
         then Inr \<lparr>year = y, month = m, day = d\<rparr>
         else Inl ValueError)"

text \<open>
  \<open>int(time.mktime(date_parsed.timetuple()))\<close> is the number of seconds from the epoch
  to local midnight of the date. It depends on the time zone of the machine, so it is a
  parameter \<open>mktime\<close> of \<open>get_split_num_id\<close>; \<open>None\<close> stands for the \<open>OverflowError\<close>
  of a date the platform cannot represent.
\<close>

definition get_split_num_id :: "(date \<Rightarrow> int option) \<Rightarrow> path \<Rightarrow> error + int" where
  "get_split_num_id mktime file =
     bind_err (get_date file) (\<lambda>date.
     bind_err (strptime date) (\<lambda>date_parsed.
     bind_err (get_split_no file) (\<lambda>split_no.
       if split_no \<ge> 100 then Inl SplitTooLargeError
       else (case mktime date_parsed of
               None \<Rightarrow> Inl OverflowError
             | Some secs \<Rightarrow> Inr (secs * 100 + split_no)))))"

text \<open>One time zone, for examples: in UTC the seconds of a date are 86400 times its
  number of days from 1970-01-01.\<close>

definition days_from_civil :: "date \<Rightarrow> int" where
  "days_from_civil dt =
     (let y = (if month dt \<le> 2 then int (year dt) - 1 else int (year dt));
          era = y div 400;
          yoe = y - era * 400;
          mp = (int (month dt) + 9) mod 12;
          doy = (153 * mp + 2) div 5 + int (day dt) - 1;
          doe = yoe * 365 + yoe div 4 - yoe div 100 + doy
      in era * 146097 + doe - 719468)"

definition mktime_utc :: "date \<Rightarrow> int option" where
  "mktime_utc dt = Some (days_from_civil dt * 86400)"

subsection \<open>Notions used to state the properties\<close>

text \<open>The least number of characters a match of an expression consumes.\<close>

primrec min_len :: "regex \<Rightarrow> nat" where
  "min_len (Lit c) = 1"
| "min_len Digit = 1"
| "min_len (Range lo hi) = 1"
| "min_len Bol = 0"
| "min_len Eol = 0"
| "min_len Eps = 0"
| "min_len (Seq r1 r2) = min_len r1 + min_len r2"
| "min_len (Alt r1 r2) = min (min_len r1) (min_len r2)"
| "min_len (Rep lo hi r) = lo * min_len r"
| "min_len (Grp r) = min_len r"

text \<open>A matcher consumes a prefix of the text it is given, and advances the position by
  its length (\<open>consumes\<close>), by at least \<open>n\<close> characters (\<open>advances n\<close>).\<close>

definition consumes :: "(mstate \<Rightarrow> mstate list) \<Rightarrow> bool" where
  "consumes m = (\<forall>i s j r. (j, r) \<in> set (m (i, s)) \<longrightarrow> (\<exists>w. s = w @ r \<and> j = i + length w))"

definition advances :: "nat \<Rightarrow> (mstate \<Rightarrow> mstate list) \<Rightarrow> bool" where
  "advances n m = (\<forall>i s j r. (j, r) \<in> set (m (i, s)) \<longrightarrow> i + n \<le> j)"

text \<open>The leftmost substring of length \<open>n\<close> that satisfies \<open>Q\<close>, if there is one.\<close>

fun leftmost_sub :: "(string \<Rightarrow> bool) \<Rightarrow> nat \<Rightarrow> string \<Rightarrow> string option" where
  "leftmost_sub Q n [] = (if Q [] then Some [] else None)"
| "leftmost_sub Q n (x # xs) =
     (if Q (take n (x # xs)) then Some (take n (x # xs)) else leftmost_sub Q n xs)"

text \<open>The shape \<open>YYYY-MM-DD\<close>: ten characters, digits except for the two hyphens.\<close>

definition is_date_str :: "string \<Rightarrow> bool" where
  "is_date_str d =
     (length d = 10 \<and> is_digit (d ! 0) \<and> is_digit (d ! 1) \<and> is_digit (d ! 2) \<and>
      is_digit (d ! 3) \<and> d ! 4 = CHR ''-'' \<and> is_digit (d ! 5) \<and> is_digit (d ! 6) \<and>
      d ! 7 = CHR ''-'' \<and> is_digit (d ! 8) \<and> is_digit (d ! 9))"

text \<open>One or two digits; the token \<open>split\<close> followed by one or two digits; the token
  \<open>a\<close> or \<open>v\<close> followed by two digits. \<open>before_final_newline Q t\<close>: the text \<open>t\<close> is
  a text that satisfies \<open>Q\<close> followed by one newline.\<close>

definition digits12 :: "string \<Rightarrow> bool" where
  "digits12 ds = ((length ds = 1 \<or> length ds = 2) \<and> list_all is_digit ds)"

definition is_split_token :: "string \<Rightarrow> bool" where
  "is_split_token t = (take 5 t = ''split'' \<and> digits12 (drop 5 t))"

definition is_session_token :: "string \<Rightarrow> bool" where
  "is_session_token t =
     (length t = 3 \<and> (t ! 0 = CHR ''a'' \<or> t ! 0 = CHR ''v'') \<and> is_digit (t ! 1) \<and> is_digit (t ! 2))"

definition before_final_newline :: "(string \<Rightarrow> bool) \<Rightarrow> string \<Rightarrow> bool" where
  "before_final_newline Q t = (t \<noteq> [] \<and> last t = CHR 0x0A \<and> Q (butlast t))"

text \<open>The first digit of a text together with the digit that follows it, if one does.\<close>

fun first_digits :: "string \<Rightarrow> string option" where
  "first_digits [] = None"
| "first_digits (x # xs) =
     (if is_digit x then Some (x # takeWhile is_digit (take 1 xs)) else first_digits xs)"

text \<open>The shapes \<open>aNN\<close> and \<open>pNNN\<close> of the two file numbers.\<close>

definition is_fileno_a :: "string \<Rightarrow> bool" where
  "is_fileno_a g = (length g = 3 \<and> g ! 0 = CHR ''a'' \<and> is_digit (g ! 1) \<and> is_digit (g ! 2))"

definition is_fileno_p :: "string \<Rightarrow> bool" where
  "is_fileno_p g =
     (length g = 4 \<and> g ! 0 = CHR ''p'' \<and> is_digit (g ! 1) \<and> is_digit (g ! 2) \<and> is_digit (g ! 3))"

section \<open>Properties\<close>

subsection \<open>Splitting and indexing\<close>

lemma split_on_nonempty: "split_on c s \<noteq> []"
  by (induction s) (auto split: list.splits)

subsection \<open>The matcher consumes what it matches\<close>

lemma step_if_Nil: "step_if P (i, []) = []"
  by (simp add: step_if_def)

lemma step_if_Cons: "step_if P (i, x # xs) = (if P x then [(Suc i, xs)] else [])"
  by (simp add: step_if_def)

lemma consumesD:
  "consumes m \<Longrightarrow> (j, r) \<in> set (m (i, s)) \<Longrightarrow> \<exists>w. s = w @ r \<and> j = i + length w"
  unfolding consumes_def by blast

lemma consumes_step_if: "consumes (step_if P)"
  unfolding consumes_def
proof (intro allI impI)
  fix i s j r
  assume "(j, r) \<in> set (step_if P (i, s))"
  then show "\<exists>w. s = w @ r \<and> j = i + length w"
    by (cases s) (auto simp: step_if_Nil step_if_Cons split: if_splits)
qed

lemma consumes_rep_greedy:
  assumes "consumes m"
  shows "consumes (rep_greedy m lo n)"
  unfolding consumes_def
proof (intro allI impI)
  fix i s j r
  assume "(j, r) \<in> set (rep_greedy m lo n (i, s))"
  then show "\<exists>w. s = w @ r \<and> j = i + length w"
  proof (induction n arbitrary: lo i s)
    case 0
    then show ?case by (auto split: if_splits)
  next
    case (Suc n)
    from Suc.prems consider
        (step) i' s' where "(i', s') \<in> set (m (i, s))"
          "(j, r) \<in> set (rep_greedy m (lo - 1) n (i', s'))"
      | (stop) "j = i" "r = s"
      by (auto split: if_splits)
    then show ?case
    proof cases
      case step
      from consumesD [OF assms step(1)] obtain w1 where w1: "s = w1 @ s'" "i' = i + length w1"
        by blast
      from Suc.IH [OF step(2)] obtain w2 where w2: "s' = w2 @ r" "j = i' + length w2"
        by blast
      from w1 w2 have "s = (w1 @ w2) @ r \<and> j = i + length (w1 @ w2)" by simp
      then show ?thesis by blast
    next
      case stop
      then show ?thesis by simp
    qed
  qed
qed

lemma consumes_rmatch: "consumes (rmatch re)"
proof (induction re)
  case (Lit c)
  have "rmatch (Lit c) = step_if (\<lambda>x. x = c)" by (rule ext) simp
  then show ?case by (simp add: consumes_step_if)
next
  case Digit
  have "rmatch Digit = step_if is_digit" by (rule ext) simp
  then show ?case by (simp add: consumes_step_if)
next
  case (Range lo hi)
  have "rmatch (Range lo hi) = step_if (\<lambda>x. lo \<le> x \<and> x \<le> hi)" by (rule ext) simp
  then show ?case by (simp add: consumes_step_if)
next
  case Bol
  then show ?case by (auto simp: consumes_def split: if_splits)
next
  case Eol
  then show ?case by (auto simp: consumes_def split: if_splits)
next
  case Eps
  then show ?case by (auto simp: consumes_def)
next
  case (Seq r1 r2)
  show ?case unfolding consumes_def
  proof (intro allI impI)
    fix i s j r
    assume "(j, r) \<in> set (rmatch (Seq r1 r2) (i, s))"
    then obtain i' s' where a: "(i', s') \<in> set (rmatch r1 (i, s))"
      and b: "(j, r) \<in> set (rmatch r2 (i', s'))" by auto
    from consumesD [OF Seq.IH(1) a] obtain w1 where w1: "s = w1 @ s'" "i' = i + length w1"
      by blast
    from consumesD [OF Seq.IH(2) b] obtain w2 where w2: "s' = w2 @ r" "j = i' + length w2"
      by blast
    from w1 w2 have "s = (w1 @ w2) @ r \<and> j = i + length (w1 @ w2)" by simp
    then show "\<exists>w. s = w @ r \<and> j = i + length w" by blast
  qed
next
  case (Alt r1 r2)
  then show ?case by (auto simp: consumes_def)
next
  case (Rep lo hi re)
  have "rmatch (Rep lo hi re) = rep_greedy (rmatch re) lo hi" by (rule ext) simp
  with consumes_rep_greedy [OF Rep.IH] show ?case by simp
next
  case (Grp re)
  have "rmatch (Grp re) = rmatch re" by (rule ext) simp
  with Grp.IH show ?case by simp
qed

lemma rmatch_consumes:
  "(j, r) \<in> set (rmatch re (i, s)) \<Longrightarrow> \<exists>w. s = w @ r \<and> j = i + length w"
  using consumes_rmatch by (rule consumesD)

lemma advancesD: "advances n m \<Longrightarrow> (j, r) \<in> set (m (i, s)) \<Longrightarrow> i + n \<le> j"
  unfolding advances_def by blast

lemma advances_step_if: "advances 1 (step_if P)"
  unfolding advances_def
proof (intro allI impI)
  fix i s j r
  assume "(j, r) \<in> set (step_if P (i, s))"
  then show "i + 1 \<le> j"
    by (cases s) (auto simp: step_if_Nil step_if_Cons split: if_splits)
qed

lemma advances_rep_greedy:
  assumes "advances n m"
  shows "advances (lo * n) (rep_greedy m lo hi)"
  unfolding advances_def
proof (intro allI impI)
  fix i s j r
  assume "(j, r) \<in> set (rep_greedy m lo hi (i, s))"
  then show "i + lo * n \<le> j"
  proof (induction hi arbitrary: lo i s)
    case 0
    then show ?case by (auto split: if_splits)
  next
    case (Suc hi)
    from Suc.prems consider
        (step) i' s' where "(i', s') \<in> set (m (i, s))"
          "(j, r) \<in> set (rep_greedy m (lo - 1) hi (i', s'))"
      | (stop) "lo = 0" "j = i"
      by (auto split: if_splits)
    then show ?case
    proof cases
      case step
      from advancesD [OF assms step(1)] have a: "i + n \<le> i'" .
      from Suc.IH [OF step(2)] have b: "i' + (lo - 1) * n \<le> j" .
      have "lo * n \<le> n + (lo - 1) * n" by (cases lo) simp_all
      with a b show ?thesis by linarith
    next
      case stop
      then show ?thesis by simp
    qed
  qed
qed

lemma advances_rmatch: "advances (min_len re) (rmatch re)"
proof (induction re)
  case (Lit c)
  have "rmatch (Lit c) = step_if (\<lambda>x. x = c)" by (rule ext) simp
  then show ?case using advances_step_if by simp
next
  case Digit
  have "rmatch Digit = step_if is_digit" by (rule ext) simp
  then show ?case using advances_step_if by simp
next
  case (Range lo hi)
  have "rmatch (Range lo hi) = step_if (\<lambda>x. lo \<le> x \<and> x \<le> hi)" by (rule ext) simp
  then show ?case using advances_step_if by simp
next
  case Bol
  then show ?case by (auto simp: advances_def split: if_splits)
next
  case Eol
  then show ?case by (auto simp: advances_def split: if_splits)
next
  case Eps
  then show ?case by (auto simp: advances_def)
next
  case (Seq r1 r2)
  show ?case unfolding advances_def
  proof (intro allI impI)
    fix i s j r
    assume "(j, r) \<in> set (rmatch (Seq r1 r2) (i, s))"
    then obtain i' s' where a: "(i', s') \<in> set (rmatch r1 (i, s))"
      and b: "(j, r) \<in> set (rmatch r2 (i', s'))" by auto
    from advancesD [OF Seq.IH(1) a] advancesD [OF Seq.IH(2) b]
    show "i + min_len (Seq r1 r2) \<le> j" by simp
  qed
next
  case (Alt r1 r2)
  show ?case unfolding advances_def
  proof (intro allI impI)
    fix i s j r
    assume "(j, r) \<in> set (rmatch (Alt r1 r2) (i, s))"
    then have "(j, r) \<in> set (rmatch r1 (i, s)) \<or> (j, r) \<in> set (rmatch r2 (i, s))" by simp
    with advancesD [OF Alt.IH(1)] advancesD [OF Alt.IH(2)]
    show "i + min_len (Alt r1 r2) \<le> j" by fastforce
  qed
next
  case (Rep lo hi re)
  have "rmatch (Rep lo hi re) = rep_greedy (rmatch re) lo hi" by (rule ext) simp
  with advances_rep_greedy [OF Rep.IH, of lo hi] show ?case by simp
next
  case (Grp re)
  have "rmatch (Grp re) = rmatch re" by (rule ext) simp
  with Grp.IH show ?case by simp
qed

text \<open>A text shorter than the least length of a match has no match.\<close>

lemma rmatch_short: "length s < min_len re \<Longrightarrow> rmatch re (i, s) = []"
proof (rule ccontr)
  assume short: "length s < min_len re" and "rmatch re (i, s) \<noteq> []"
  then obtain j r where m: "(j, r) \<in> set (rmatch re (i, s))"
    by (cases "rmatch re (i, s)") auto
  from rmatch_consumes [OF m] obtain w where "s = w @ r" "j = i + length w" by blast
  moreover from advancesD [OF advances_rmatch m] have "i + min_len re \<le> j" .
  ultimately show False using short by simp
qed

subsection \<open>Searching\<close>

lemma search_from_None_iff:
  "search_from r i s = None \<longleftrightarrow> (\<forall>k\<le>length s. rmatch r (i + k, drop k s) = [])"
proof (induction s arbitrary: i)
  case Nil
  then show ?case by (auto split: list.splits)
next
  case (Cons x xs)
  show ?case
  proof (cases "rmatch r (i, x # xs)")
    case Nil
    have "(\<forall>k\<le>length (x # xs). rmatch r (i + k, drop k (x # xs)) = []) \<longleftrightarrow>
          (\<forall>k\<le>length xs. rmatch r (Suc i + k, drop k xs) = [])"
      (is "?L \<longleftrightarrow> ?R")
    proof
      assume l: ?L
      show ?R
      proof (intro allI impI)
        fix k assume "k \<le> length xs"
        with l [rule_format, of "Suc k"] show "rmatch r (Suc i + k, drop k xs) = []" by simp
      qed
    next
      assume r: ?R
      show ?L
      proof (intro allI impI)
        fix k assume k: "k \<le> length (x # xs)"
        show "rmatch r (i + k, drop k (x # xs)) = []"
        proof (cases k)
          case 0
          with Nil show ?thesis by simp
        next
          case (Suc k')
          with k r [rule_format, of k'] show ?thesis by simp
        qed
      qed
    qed
    with Nil Cons.IH [of "Suc i"] show ?thesis by simp
  next
    case (Cons a list)
    then have "search_from r i (x # xs) \<noteq> None" by (cases a) simp
    moreover from Cons have "\<not> (\<forall>k\<le>length (x # xs). rmatch r (i + k, drop k (x # xs)) = [])"
      by (auto intro: exI [of _ 0])
    ultimately show ?thesis by blast
  qed
qed

lemma search_from_fixed:
  assumes "\<And>i s. rmatch r (i, s) = (if Q (take n s) then [(i + n, drop n s)] else [])"
  shows "search_from r i s = leftmost_sub Q n s"
  by (induction s arbitrary: i) (simp_all add: assms)

lemma leftmost_sub_None_index:
  "leftmost_sub Q n s = None \<longleftrightarrow> (\<forall>k\<le>length s. \<not> Q (take n (drop k s)))"
proof (induction s)
  case Nil
  then show ?case by simp
next
  case (Cons x xs)
  have "(\<forall>k\<le>length (x # xs). \<not> Q (take n (drop k (x # xs)))) \<longleftrightarrow>
        \<not> Q (take n (x # xs)) \<and> (\<forall>k\<le>length xs. \<not> Q (take n (drop k xs)))"
    (is "?L \<longleftrightarrow> ?R")
  proof
    assume l: ?L
    have "\<not> Q (take n (x # xs))" using l [rule_format, of 0] by simp
    moreover have "\<not> Q (take n (drop k xs))" if "k \<le> length xs" for k
      using l [rule_format, of "Suc k"] that by simp
    ultimately show ?R by blast
  next
    assume r: ?R
    show ?L
    proof (intro allI impI)
      fix k assume "k \<le> length (x # xs)"
      then show "\<not> Q (take n (drop k (x # xs)))"
        using r by (cases k) simp_all
    qed
  qed
  with Cons.IH show ?case by simp
qed

lemma leftmost_sub_Some_index:
  "leftmost_sub Q n s = Some g \<longleftrightarrow>
     (\<exists>k\<le>length s. g = take n (drop k s) \<and> Q g \<and> (\<forall>k'<k. \<not> Q (take n (drop k' s))))"
proof (induction s)
  case Nil
  then show ?case by auto
next
  case (Cons x xs)
  show ?case
  proof (cases "Q (take n (x # xs))")
    case True
    have "(\<exists>k\<le>length (x # xs). g = take n (drop k (x # xs)) \<and> Q g \<and>
             (\<forall>k'<k. \<not> Q (take n (drop k' (x # xs))))) \<longleftrightarrow> g = take n (x # xs)"
      (is "?L \<longleftrightarrow> ?R")
    proof
      assume ?L
      then obtain k where k: "g = take n (drop k (x # xs))"
        "\<forall>k'<k. \<not> Q (take n (drop k' (x # xs)))" by blast
      have "k = 0"
      proof (rule ccontr)
        assume "k \<noteq> 0"
        then have "0 < k" by simp
        with k(2) have "\<not> Q (take n (drop 0 (x # xs)))" by blast
        with True show False by simp
      qed
      with k(1) show ?R by simp
    next
      assume ?R
      with True show ?L by (intro exI [of _ 0]) simp
    qed
    with True show ?thesis by auto
  next
    case False
    have "(\<exists>k\<le>length (x # xs). g = take n (drop k (x # xs)) \<and> Q g \<and>
             (\<forall>k'<k. \<not> Q (take n (drop k' (x # xs))))) \<longleftrightarrow>
          (\<exists>k\<le>length xs. g = take n (drop k xs) \<and> Q g \<and> (\<forall>k'<k. \<not> Q (take n (drop k' xs))))"
      (is "?L \<longleftrightarrow> ?R")
    proof
      assume ?L
      then obtain k where k: "k \<le> length (x # xs)" "g = take n (drop k (x # xs))" "Q g"
        "\<forall>k'<k. \<not> Q (take n (drop k' (x # xs)))" by blast
      from k(2,3) False have "k \<noteq> 0" by (intro notI) simp
      then obtain k0 where k0: "k = Suc k0" by (cases k) simp_all
      have "\<not> Q (take n (drop k' xs))" if "k' < k0" for k'
        using k(4) [rule_format, of "Suc k'"] that k0 by simp
      with k k0 show ?R by (intro exI [of _ k0]) simp
    next
      assume ?R
      then obtain k where k: "k \<le> length xs" "g = take n (drop k xs)" "Q g"
        "\<forall>k'<k. \<not> Q (take n (drop k' xs))" by blast
      have "\<not> Q (take n (drop k' (x # xs)))" if "k' < Suc k" for k'
      proof (cases k')
        case 0
        with False show ?thesis by simp
      next
        case (Suc k'')
        with that k(4) show ?thesis by simp
      qed
      with k show ?L by (intro exI [of _ "Suc k"]) simp
    qed
    with False Cons.IH show ?thesis by simp
  qed
qed

lemma occurrence_index:
  assumes "s = pre @ d @ post" "length d = n"
  shows "take n (drop (length pre) s) = d" "length pre \<le> length s"
  using assms by simp_all

lemma index_occurrence:
  assumes "k \<le> length s"
  shows "s = take k s @ take n (drop k s) @ drop (k + n) s" "length (take k s) = k"
proof -
  have "take n (drop k s) @ drop n (drop k s) = drop k s" by (rule append_take_drop_id)
  then have "take n (drop k s) @ drop (k + n) s = drop k s" by (simp add: add.commute)
  then have "take k s @ take n (drop k s) @ drop (k + n) s = take k s @ drop k s" by simp
  then show "s = take k s @ take n (drop k s) @ drop (k + n) s" by simp
  from assms show "length (take k s) = k" by simp
qed

lemma leftmost_sub_None_iff:
  assumes len: "\<And>d. Q d \<Longrightarrow> length d = n"
  shows "leftmost_sub Q n s = None \<longleftrightarrow> (\<forall>pre d post. s = pre @ d @ post \<longrightarrow> \<not> Q d)"
proof
  assume none: "leftmost_sub Q n s = None"
  show "\<forall>pre d post. s = pre @ d @ post \<longrightarrow> \<not> Q d"
  proof (intro allI impI notI)
    fix pre d post
    assume s: "s = pre @ d @ post" and q: "Q d"
    from occurrence_index [OF s len [OF q]] q none
    show False by (auto simp: leftmost_sub_None_index)
  qed
next
  assume r: "\<forall>pre d post. s = pre @ d @ post \<longrightarrow> \<not> Q d"
  have "\<not> Q (take n (drop k s))" if "k \<le> length s" for k
    using r index_occurrence(1) [OF that, of n] by blast
  then show "leftmost_sub Q n s = None" by (simp add: leftmost_sub_None_index)
qed

lemma leftmost_sub_Some_iff:
  assumes len: "\<And>d. Q d \<Longrightarrow> length d = n"
  shows "leftmost_sub Q n s = Some d \<longleftrightarrow>
     Q d \<and> (\<exists>pre post. s = pre @ d @ post \<and>
              (\<forall>pre' d' post'. s = pre' @ d' @ post' \<and> Q d' \<longrightarrow> length pre \<le> length pre'))"
  (is "?L \<longleftrightarrow> ?R")
proof
  assume ?L
  then obtain k where k: "k \<le> length s" "d = take n (drop k s)" "Q d"
    "\<forall>k'<k. \<not> Q (take n (drop k' s))" by (auto simp: leftmost_sub_Some_index)
  have dec: "s = take k s @ d @ drop (k + n) s" "length (take k s) = k"
    using index_occurrence(1) [OF k(1), of n] index_occurrence(2) [OF k(1)] k(2) by simp_all
  have "length (take k s) \<le> length pre'" if "s = pre' @ d' @ post'" "Q d'" for pre' d' post'
  proof -
    from occurrence_index [OF that(1) len [OF that(2)]] that(2)
    have "Q (take n (drop (length pre') s))" by simp
    with k(4) have "\<not> length pre' < k" by blast
    with dec(2) show ?thesis by simp
  qed
  with dec(1) k(3) show ?R by blast
next
  assume ?R
  then obtain pre post where q: "Q d" and s: "s = pre @ d @ post"
    and least: "\<forall>pre' d' post'. s = pre' @ d' @ post' \<and> Q d' \<longrightarrow> length pre \<le> length pre'"
    by blast
  note occ = occurrence_index [OF s len [OF q]]
  have "\<not> Q (take n (drop k' s))" if "k' < length pre" for k'
  proof
    assume q': "Q (take n (drop k' s))"
    from that occ(2) have "k' \<le> length s" by simp
    from index_occurrence(1) [OF this, of n] index_occurrence(2) [OF this] q' least have "length pre \<le> k'" by metis
    with that show False by simp
  qed
  with occ q show ?L unfolding leftmost_sub_Some_index
    by (intro exI [of _ "length pre"]) simp
qed

lemma no_earlier_occurrence:
  assumes len: "\<And>d. Q d \<Longrightarrow> length d = n"
    and none: "list_all (\<lambda>k. \<not> Q (take n (drop k s))) [0..<m]"
  shows "\<forall>pre d post. s = pre @ d @ post \<and> Q d \<longrightarrow> m \<le> length pre"
proof (intro allI impI)
  fix pre d post
  assume a: "s = pre @ d @ post \<and> Q d"
  then have "Q (take n (drop (length pre) s))"
    using occurrence_index(1) [of s pre d post n] len by simp
  with none show "m \<le> length pre"
    by (auto simp: list_all_iff not_less [symmetric])
qed

subsection \<open>The date pattern and \<open>get_date\<close>\<close>

lemma range_digit: "(CHR ''0'' \<le> x \<and> x \<le> CHR ''9'') = is_digit x"
  by (simp add: is_digit_def)

lemma long_list10:
  "10 \<le> length s \<Longrightarrow>
   \<exists>c0 c1 c2 c3 c4 c5 c6 c7 c8 c9 r. s = c0 # c1 # c2 # c3 # c4 # c5 # c6 # c7 # c8 # c9 # r"
  by (simp add: eval_nat_numeral Suc_le_length_iff) blast

lemma rmatch_date_pat:
  "rmatch date_pat (i, s) =
     (if is_date_str (take 10 s) then [(i + 10, drop 10 s)] else [])"
proof (cases "10 \<le> length s")
  case True
  from long_list10 [OF this] obtain c0 c1 c2 c3 c4 c5 c6 c7 c8 c9 r where
    s: "s = c0 # c1 # c2 # c3 # c4 # c5 # c6 # c7 # c8 # c9 # r" by blast
  show ?thesis unfolding s
    by (simp add: date_pat_def seqs_def is_date_str_def step_if_Cons range_digit eval_nat_numeral)
next
  case False
  then have "length s < min_len date_pat"
    by (simp add: date_pat_def seqs_def)
  then have "rmatch date_pat (i, s) = []" by (rule rmatch_short)
  moreover from False have "\<not> is_date_str (take 10 s)" by (simp add: is_date_str_def)
  ultimately show ?thesis by simp
qed

lemma is_date_str_length: "is_date_str d \<Longrightarrow> length d = 10"
  by (simp add: is_date_str_def)

lemma re_search_date_pat: "re_search date_pat s = leftmost_sub is_date_str 10 s"
  unfolding re_search_def by (rule search_from_fixed) (rule rmatch_date_pat)

text \<open>
  C5, as the code has it. \<open>get_date\<close> searches the file name for
  \<open>[0-9]{4}-[0-9]{2}-[0-9]{2}\<close> and returns the leftmost substring of that shape,
  exactly as it stands in the name, whenever the name has such a substring: a date
  embedded in a name is returned when no substring of the shape starts before it. It
  raises \<open>IdentityError\<close>, and no other error, exactly when the name has no such
  substring.
\<close>

theorem get_date_leftmost_match:
  "(get_date p = Inl IdentityError \<longleftrightarrow>
      (\<forall>pre d post. name p = pre @ d @ post \<longrightarrow> \<not> is_date_str d)) \<and>
   (\<forall>e. get_date p = Inl e \<longrightarrow> e = IdentityError) \<and>
   (\<forall>d. get_date p = Inr d \<longleftrightarrow>
      is_date_str d \<and>
      (\<exists>pre post. name p = pre @ d @ post \<and>
         (\<forall>pre' d' post'. name p = pre' @ d' @ post' \<and> is_date_str d'
            \<longrightarrow> length pre \<le> length pre')))"
proof (intro conjI allI)
  have "get_date p = Inl IdentityError \<longleftrightarrow> leftmost_sub is_date_str 10 (name p) = None"
    by (simp add: get_date_def re_search_date_pat split: option.splits)
  then show "get_date p = Inl IdentityError \<longleftrightarrow>
      (\<forall>pre d post. name p = pre @ d @ post \<longrightarrow> \<not> is_date_str d)"
    by (simp only: leftmost_sub_None_iff [of is_date_str 10, OF is_date_str_length])
next
  fix e
  show "get_date p = Inl e \<longrightarrow> e = IdentityError"
    by (simp add: get_date_def split: option.splits)
next
  fix d
  have "get_date p = Inr d \<longleftrightarrow> leftmost_sub is_date_str 10 (name p) = Some d"
    by (simp add: get_date_def re_search_date_pat split: option.splits)
  then show "get_date p = Inr d \<longleftrightarrow>
      is_date_str d \<and>
      (\<exists>pre post. name p = pre @ d @ post \<and>
         (\<forall>pre' d' post'. name p = pre' @ d' @ post' \<and> is_date_str d'
            \<longrightarrow> length pre \<le> length pre'))"
    by (simp only: leftmost_sub_Some_iff [of is_date_str 10, OF is_date_str_length])
qed

theorem get_date_leftmost_match_witness:
  "is_date_str ''2023-05-01'' \<and>
   get_date (Path [] [''rach3_2023-05-01_a01.mid'']) = Inr ''2023-05-01'' \<and>
   get_date (Path ''/'' [''data'', ''1999-01-01_2023-05-01.mid'']) = Inr ''1999-01-01'' \<and>
   get_date (Path [] [''warmup_full.mp4'']) = Inl IdentityError"
proof -
  let ?p = "Path [] [''rach3_2023-05-01_a01.mid'']"
  let ?q = "Path ''/'' [''data'', ''1999-01-01_2023-05-01.mid'']"
  let ?r = "Path [] [''warmup_full.mp4'']"
  have d1: "is_date_str ''2023-05-01''" by code_simp
  have d2: "is_date_str ''1999-01-01''" by code_simp
  have "list_all (\<lambda>k. \<not> is_date_str (take 10 (drop k ''rach3_2023-05-01_a01.mid''))) [0..<6]"
    by code_simp
  from no_earlier_occurrence [of is_date_str 10, OF is_date_str_length this]
  have p: "name ?p = ''rach3_'' @ ''2023-05-01'' @ ''_a01.mid'' \<and>
      (\<forall>pre' d' post'. name ?p = pre' @ d' @ post' \<and> is_date_str d'
         \<longrightarrow> length ''rach3_'' \<le> length pre')"
    by (simp add: name_def eval_nat_numeral)
  have q: "name ?q = [] @ ''1999-01-01'' @ ''_2023-05-01.mid'' \<and>
      (\<forall>pre' d' post'. name ?q = pre' @ d' @ post' \<and> is_date_str d'
         \<longrightarrow> length ([] :: string) \<le> length pre')"
    by (simp add: name_def)
  have "leftmost_sub is_date_str 10 ''warmup_full.mp4'' = None" by code_simp
  then have "\<forall>pre d post. ''warmup_full.mp4'' = pre @ d @ post \<longrightarrow> \<not> is_date_str d"
    by (simp only: leftmost_sub_None_iff [of is_date_str 10, OF is_date_str_length])
  then have r: "\<forall>pre d post. name ?r = pre @ d @ post \<longrightarrow> \<not> is_date_str d"
    by (simp add: name_def)
  from d1 p have "get_date ?p = Inr ''2023-05-01''"
    using get_date_leftmost_match [of ?p] by blast
  moreover from d2 q have "get_date ?q = Inr ''1999-01-01''"
    using get_date_leftmost_match [of ?q] by blast
  moreover from r have "get_date ?r = Inl IdentityError"
    using get_date_leftmost_match [of ?r] by blast
  ultimately show ?thesis using d1 by blast
qed

text \<open>
  C5 as stated fails: the round trip holds only for the leftmost match. The name
  \<open>1999-01-01_2023-05-01.mid\<close> contains \<open>2023-05-01\<close> and \<open>get_date\<close> returns
  \<open>1999-01-01\<close>; the name \<open>1234-56-2023-05-01.mid\<close> contains \<open>2023-05-01\<close> and
  \<open>get_date\<close> returns \<open>1234-56-20\<close>, the match that starts first.
\<close>

theorem get_date_not_round_trip:
  "name (Path ''/'' [''data'', ''1999-01-01_2023-05-01.mid'']) =
     ''1999-01-01_'' @ ''2023-05-01'' @ ''.mid'' \<and>
   is_date_str ''2023-05-01'' \<and>
   get_date (Path ''/'' [''data'', ''1999-01-01_2023-05-01.mid'']) = Inr ''1999-01-01'' \<and>
   name (Path [] [''1234-56-2023-05-01.mid'']) = ''1234-56-'' @ ''2023-05-01'' @ ''.mid'' \<and>
   get_date (Path [] [''1234-56-2023-05-01.mid'']) = Inr ''1234-56-20''"
  by code_simp

subsection \<open>The predicates on the last token\<close>

text \<open>\<open>split\<close> never returns an empty list, so \<open>[0]\<close> and \<open>[-1]\<close> of the tokens never
  raise; \<open>[-1][0]\<close> raises exactly when the last token is empty.\<close>

lemma tokens_nonempty: "tokens p \<noteq> []"
  by (simp add: tokens_def split_on_nonempty)

lemma py_last_tokens: "py_last (tokens p) = Inr (last (tokens p))"
  by (simp add: py_last_def tokens_nonempty)

lemma last_token_head_eq:
  "last_token_head p =
     (if last (tokens p) = [] then Inl IndexError else Inr (hd (last (tokens p))))"
  by (cases "last (tokens p)") (simp_all add: last_token_head_def py_last_tokens bind_err_def py_first_def)

lemma is_full_video_eq:
  "is_full_video p = Inr (last (tokens p) = ''full'' \<and> suffix p = ''.mp4'')"
  by (simp add: is_full_video_def py_last_tokens bind_err_def)

lemma is_valid_video_eq:
  "is_valid_video p =
     (if last (tokens p) = [] then Inl IndexError
      else Inr (hd (last (tokens p)) = CHR ''p'' \<and> suffix p = ''.mp4''))"
  by (simp add: is_valid_video_def last_token_head_eq bind_err_def)

lemma is_valid_audio_eq:
  "is_valid_audio p =
     (if last (tokens p) = [] then Inl IndexError
      else Inr (hd (last (tokens p)) = CHR ''p'' \<and> suffix p = ''.aac''))"
  by (simp add: is_valid_audio_def last_token_head_eq bind_err_def)

lemma is_valid_midi_eq:
  "is_valid_midi p =
     (if suffix p = ''.mid''
      then (if last (tokens p) = [] then Inl IndexError
            else Inr (hd (last (tokens p)) = CHR ''a''))
      else Inr False)"
  by (simp add: is_valid_midi_def last_token_head_eq bind_err_def)

lemma is_valid_flac_eq:
  "is_valid_flac p =
     (if suffix p = ''.flac''
      then (if last (tokens p) = [] then Inl IndexError
            else Inr (hd (last (tokens p)) = CHR ''a''))
      else Inr False)"
  by (simp add: is_valid_flac_def last_token_head_eq bind_err_def)

subsection \<open>\<open>get_type\<close>\<close>

lemma get_type_mid:
  "suffix p = ''.mid'' \<Longrightarrow> get_type p =
     (if last (tokens p) = [] then Inl IndexError
      else if hd (last (tokens p)) = CHR ''a'' then Inr (Some full_midi)
      else if is_split p then Inr (Some split_midi) else Inr None)"
  by (simp add: get_type_def is_valid_midi_eq bind_err_def)

lemma get_type_flac:
  "suffix p = ''.flac'' \<Longrightarrow> get_type p =
     (if last (tokens p) = [] then Inl IndexError
      else if hd (last (tokens p)) = CHR ''a'' then Inr (Some full_flac)
      else if is_split p then Inr (Some split_flac) else Inr None)"
  by (simp add: get_type_def is_valid_flac_eq bind_err_def)

lemma get_type_mp4:
  "suffix p = ''.mp4'' \<Longrightarrow> get_type p =
     (if is_trimmed p then Inr (Some trimmed_video)
      else if last (tokens p) = ''full'' then Inr (Some full_video)
      else if last (tokens p) = [] then Inl IndexError
      else if hd (last (tokens p)) = CHR ''p'' then Inr (Some video)
      else if is_split p then Inr (Some split_video) else Inr None)"
  by (simp add: get_type_def is_full_video_eq is_valid_video_eq bind_err_def)

lemma get_type_aac:
  "suffix p = ''.aac'' \<Longrightarrow> get_type p =
     (if is_full_audio p then Inr (Some full_audio)
      else if last (tokens p) = [] then Inl IndexError
      else if hd (last (tokens p)) = CHR ''p'' then Inr (Some audio)
      else Inr None)"
  by (simp add: get_type_def is_valid_audio_eq bind_err_def)

lemma get_type_other:
  "suffix p \<noteq> ''.mid'' \<Longrightarrow> suffix p \<noteq> ''.flac'' \<Longrightarrow> suffix p \<noteq> ''.mp4'' \<Longrightarrow>
   suffix p \<noteq> ''.aac'' \<Longrightarrow> get_type p = Inr None"
  by (simp add: get_type_def)

text \<open>
  C2, as the code has it. \<open>get_type\<close> raises nothing but \<open>IndexError\<close>, and raises it
  exactly when the last token of the stem is empty and the dispatch reaches a check of its
  first character: for every \<open>.mid\<close> and \<open>.flac\<close> path, for a \<open>.mp4\<close> path with no
  token \<open>trimmed\<close>, and for a \<open>.aac\<close> path with no token \<open>full\<close>. When the last token
  is not empty it returns a tag or the no-match value, and for every other extension it
  returns the no-match value.
\<close>

theorem get_type_total_unless_empty_last_token:
  "(get_type p = Inl e \<longleftrightarrow>
      e = IndexError \<and> last (tokens p) = [] \<and>
      (suffix p = ''.mid'' \<or> suffix p = ''.flac'' \<or>
       (suffix p = ''.mp4'' \<and> \<not> is_trimmed p) \<or>
       (suffix p = ''.aac'' \<and> \<not> is_full_audio p))) \<and>
   (last (tokens p) \<noteq> [] \<longrightarrow> (\<exists>r. get_type p = Inr r)) \<and>
   (suffix p \<notin> {''.mid'', ''.flac'', ''.mp4'', ''.aac''} \<longrightarrow> get_type p = Inr None)"
proof -
  consider (mid) "suffix p = ''.mid''" | (flac) "suffix p = ''.flac''"
    | (mp4) "suffix p = ''.mp4''" | (aac) "suffix p = ''.aac''"
    | (other) "suffix p \<notin> {''.mid'', ''.flac'', ''.mp4'', ''.aac''}"
    by blast
  then show ?thesis
  proof cases
    case mid
    then show ?thesis by (auto simp: get_type_mid)
  next
    case flac
    then show ?thesis by (auto simp: get_type_flac)
  next
    case mp4
    then show ?thesis by (auto simp: get_type_mp4)
  next
    case aac
    then show ?thesis by (auto simp: get_type_aac)
  next
    case other
    then show ?thesis by (auto simp: get_type_other)
  qed
qed

theorem get_type_total_unless_empty_last_token_witness:
  "get_type (Path [] [''x_.mid'']) = Inl IndexError \<and>
   get_type (Path [] [''x_.flac'']) = Inl IndexError \<and>
   get_type (Path [] [''x_.mp4'']) = Inl IndexError \<and>
   get_type (Path [] [''x_.aac'']) = Inl IndexError \<and>
   (\<exists>r. get_type (Path [] [''rach3_2023-05-01_a01.mid'']) = Inr r) \<and>
   get_type (Path [] [''notes_.txt'']) = Inr None"
proof -
  let ?mid = "Path [] [''x_.mid'']"
  let ?flac = "Path [] [''x_.flac'']"
  let ?mp4 = "Path [] [''x_.mp4'']"
  let ?aac = "Path [] [''x_.aac'']"
  let ?ok = "Path [] [''rach3_2023-05-01_a01.mid'']"
  let ?txt = "Path [] [''notes_.txt'']"
  have mid: "last (tokens ?mid) = [] \<and> suffix ?mid = ''.mid''" by code_simp
  have flac: "last (tokens ?flac) = [] \<and> suffix ?flac = ''.flac''" by code_simp
  have mp4: "last (tokens ?mp4) = [] \<and> suffix ?mp4 = ''.mp4'' \<and> \<not> is_trimmed ?mp4" by code_simp
  have aac: "last (tokens ?aac) = [] \<and> suffix ?aac = ''.aac'' \<and> \<not> is_full_audio ?aac" by code_simp
  have ok: "last (tokens ?ok) \<noteq> []" by code_simp
  have other: "suffix ?txt \<notin> {''.mid'', ''.flac'', ''.mp4'', ''.aac''}" by code_simp
  from mid have "get_type ?mid = Inl IndexError"
    using get_type_total_unless_empty_last_token [of ?mid IndexError] by blast
  moreover from flac have "get_type ?flac = Inl IndexError"
    using get_type_total_unless_empty_last_token [of ?flac IndexError] by blast
  moreover from mp4 have "get_type ?mp4 = Inl IndexError"
    using get_type_total_unless_empty_last_token [of ?mp4 IndexError] by blast
  moreover from aac have "get_type ?aac = Inl IndexError"
    using get_type_total_unless_empty_last_token [of ?aac IndexError] by blast
  moreover from ok have "\<exists>r. get_type ?ok = Inr r"
    using get_type_total_unless_empty_last_token [of ?ok IndexError] by blast
  moreover from other have "get_type ?txt = Inr None"
    using get_type_total_unless_empty_last_token [of ?txt IndexError] by blast
  ultimately show ?thesis by blast
qed

text \<open>C2 as stated fails: the stem of \<open>x_.mid\<close> ends in an underscore, its last token is
  empty, and \<open>is_valid_midi\<close> raises \<open>IndexError\<close> on \<open>[-1][0]\<close>.\<close>

theorem get_type_empty_last_token_raises:
  "get_type (Path [] [''x_.mid'']) = Inl IndexError"
  by code_simp



subsection \<open>Anchored patterns\<close>

lemma search_from_anchored_pos:
  assumes "\<And>i s. 0 < i \<Longrightarrow> rmatch r (i, s) = []"
  shows "0 < i \<Longrightarrow> search_from r i s = None"
  by (induction s arbitrary: i) (simp_all add: assms)

lemma re_search_anchored:
  assumes "\<And>i s. 0 < i \<Longrightarrow> rmatch r (i, s) = []"
  shows "re_search r s = (case rmatch r (0, s) of [] \<Rightarrow> None | (j, _) # _ \<Rightarrow> Some (take j s))"
proof (cases "rmatch r (0, s)")
  case Nil
  have "search_from r (Suc 0) xs = None" for xs
    by (rule search_from_anchored_pos [OF assms]) simp_all
  with Nil have "search_from r 0 s = None"
    by (subst search_from.simps) (simp del: search_from.simps split: list.splits)
  with Nil show ?thesis by (simp add: re_search_def del: search_from.simps)
next
  case (Cons st sts)
  then have "search_from r 0 s = Some (take (fst st) s)"
    by (subst search_from.simps) (simp del: search_from.simps split: prod.splits)
  with Cons show ?thesis by (simp add: re_search_def del: search_from.simps split: prod.splits)
qed

lemma list_upto4:
  obtains "t = []" | a where "t = [a]" | a b where "t = [a, b]" | a b c where "t = [a, b, c]"
    | a b c d r where "t = a # b # c # d # r"
proof (cases t)
  case Nil
  then show ?thesis by (rule that(1))
next
  case t: (Cons a t1)
  show ?thesis
  proof (cases t1)
    case Nil
    with t show ?thesis by (intro that(2)) simp
  next
    case t1: (Cons b t2)
    show ?thesis
    proof (cases t2)
      case Nil
      with t t1 show ?thesis by (intro that(3)) simp
    next
      case t2: (Cons c t3)
      show ?thesis
      proof (cases t3)
        case Nil
        with t t1 t2 show ?thesis by (intro that(4)) simp
      next
        case (Cons d r)
        with t t1 t2 show ?thesis by (intro that(5)) simp
      qed
    qed
  qed
qed

lemma rmatch_lits:
  "rmatch (foldr Seq (map Lit w) r) (i, s) =
     (if take (length w) s = w \<and> length w \<le> length s
      then rmatch r (i + length w, drop (length w) s) else [])"
proof (induction w arbitrary: i s)
  case Nil
  then show ?case by simp
next
  case (Cons c w)
  show ?case
  proof (cases s)
    case Nil
    then show ?thesis by (simp add: step_if_Nil)
  next
    case (Cons x xs)
    then show ?thesis using Cons.IH [of "Suc i" xs] by (auto simp: step_if_Cons)
  qed
qed

lemma split_pat_unfold:
  "split_pat = Seq Bol (foldr Seq (map Lit ''split'') (Seq (Rep 1 2 Digit) (Seq Eol Eps)))"
  by (simp add: split_pat_def seqs_def)

lemma rmatch_split_pat_pos: "0 < i \<Longrightarrow> rmatch split_pat (i, s) = []"
  by (simp add: split_pat_def seqs_def)

lemma rmatch_digits12_eol:
  "rmatch (Seq (Rep 1 2 Digit) (Seq Eol Eps)) (i, u) \<noteq> [] \<longleftrightarrow>
     digits12 u \<or> before_final_newline digits12 u"
  by (cases u rule: list_upto4)
     (auto simp: step_if_Nil step_if_Cons digits12_def before_final_newline_def eval_nat_numeral)

subsection \<open>The pattern of \<open>is_split\<close>\<close>

lemma take5_split_length: "take 5 t = ''split'' \<Longrightarrow> 5 \<le> length t"
proof -
  assume "take 5 t = ''split''"
  then have "length (take 5 t) = 5" by simp
  then show ?thesis by simp
qed

lemma digits12_length: "digits12 ds \<Longrightarrow> 1 \<le> length ds \<and> length ds \<le> 2"
  by (auto simp: digits12_def)

lemma before_final_newline_drop:
  assumes "n \<le> length t"
  shows "before_final_newline Q (drop n t) \<longleftrightarrow>
         n < length t \<and> last t = CHR 0x0A \<and> Q (drop n (butlast t))"
  using assms by (auto simp: before_final_newline_def drop_butlast)

lemma rmatch_split_pat_lits:
  "rmatch split_pat (0, t) =
     (if take 5 t = ''split'' \<and> 5 \<le> length t
      then rmatch (Seq (Rep 1 2 Digit) (Seq Eol Eps)) (5, drop 5 t) else [])"
proof -
  let ?R = "Seq (Rep 1 2 Digit) (Seq Eol Eps)"
  have l: "length ''split'' = 5" by simp
  have "rmatch split_pat (0, t) = rmatch (foldr Seq (map Lit ''split'') ?R) (0, t)"
    by (simp add: split_pat_unfold)
  also have "\<dots> = (if take 5 t = ''split'' \<and> 5 \<le> length t
      then rmatch ?R (5, drop 5 t) else [])"
    using rmatch_lits [of "''split''" ?R 0 t] unfolding l by (simp only: add.left_neutral)
  finally show ?thesis .
qed

lemma rmatch_split_pat:
  "rmatch split_pat (0, t) \<noteq> [] \<longleftrightarrow> is_split_token t \<or> before_final_newline is_split_token t"
proof (cases "take 5 t = ''split''")
  case True
  note len = take5_split_length [OF True]
  have "rmatch split_pat (0, t) = rmatch (Seq (Rep 1 2 Digit) (Seq Eol Eps)) (5, drop 5 t)"
    using True len by (simp only: rmatch_split_pat_lits if_True simp_thms)
  then have "rmatch split_pat (0, t) \<noteq> [] \<longleftrightarrow>
      digits12 (drop 5 t) \<or> before_final_newline digits12 (drop 5 t)"
    by (simp only: rmatch_digits12_eol)
  also have "before_final_newline digits12 (drop 5 t) \<longleftrightarrow> before_final_newline is_split_token t"
  proof (cases "5 < length t")
    case long: True
    then have "take 5 (butlast t) = take 5 t" by (simp add: take_butlast)
    with True long show ?thesis
      by (auto simp: before_final_newline_drop [OF len] before_final_newline_def is_split_token_def
          drop_butlast)
  next
    case False
    with len have "length t = 5" by simp
    then have "\<not> digits12 (drop 5 (butlast t))" by (simp add: digits12_def)
    with False show ?thesis
      by (auto simp: before_final_newline_drop [OF len] before_final_newline_def is_split_token_def)
  qed
  finally show ?thesis using True by (simp add: is_split_token_def)
next
  case False
  have "rmatch split_pat (0, t) = []"
    using False by (simp only: rmatch_split_pat_lits if_False simp_thms)
  moreover from False have "\<not> is_split_token t" by (simp add: is_split_token_def)
  moreover have "\<not> before_final_newline is_split_token t"
  proof
    assume b: "before_final_newline is_split_token t"
    then have s: "take 5 (butlast t) = ''split''" and d: "digits12 (drop 5 (butlast t))"
      by (simp_all add: before_final_newline_def is_split_token_def)
    from digits12_length [OF d] have "5 < length (butlast t)" by simp arith
    then have "5 < length t" by simp
    then have "take 5 (butlast t) = take 5 t" by (simp add: take_butlast)
    with s False show False by simp
  qed
  ultimately show ?thesis by simp
qed

lemma re_search_split_pat:
  "re_search split_pat t \<noteq> None \<longleftrightarrow> is_split_token t \<or> before_final_newline is_split_token t"
proof -
  have "re_search split_pat t \<noteq> None \<longleftrightarrow> rmatch split_pat (0, t) \<noteq> []"
    by (simp add: re_search_anchored [of split_pat, OF rmatch_split_pat_pos] split: list.splits)
  then show ?thesis by (simp only: rmatch_split_pat)
qed

lemma is_split_iff:
  "is_split p \<longleftrightarrow>
     (\<exists>t\<in>set (tokens p). is_split_token t \<or> before_final_newline is_split_token t)"
  by (simp only: is_split_def list_ex_iff re_search_split_pat)

subsection \<open>The split number\<close>

lemma digit_val_bounds: "is_digit c \<Longrightarrow> 0 \<le> digit_val c \<and> digit_val c \<le> 9"
proof -
  assume "is_digit c"
  then have "(48::nat) \<le> of_char c \<and> of_char c \<le> (57::nat)"
    by (simp add: is_digit_def less_eq_char_def)
  moreover have "(of_char c :: int) = int (of_char c)" by (rule of_nat_of_char [symmetric])
  ultimately show ?thesis by (simp add: digit_val_def)
qed

lemma rmatch_split_no_pat_Nil: "rmatch split_no_pat (i, []) = []"
  by (simp add: split_no_pat_def step_if_Nil eval_nat_numeral)

lemma rmatch_split_no_pat_Cons:
  "rmatch split_no_pat (i, x # xs) =
     (if is_digit x
      then (case xs of
              [] \<Rightarrow> [(Suc i, [])]
            | y # ys \<Rightarrow> if is_digit y then [(Suc (Suc i), ys), (Suc i, xs)] else [(Suc i, xs)])
      else [])"
  by (cases xs) (simp_all add: split_no_pat_def step_if_Nil step_if_Cons eval_nat_numeral)

lemma search_from_Nil:
  "search_from r i [] = (case rmatch r (i, []) of [] \<Rightarrow> None | (j, _) # _ \<Rightarrow> Some [])"
  by (subst search_from.simps) (simp del: search_from.simps split: list.splits)

lemma search_from_Cons:
  "search_from r i (x # xs) =
     (case rmatch r (i, x # xs) of
        [] \<Rightarrow> search_from r (Suc i) xs
      | (j, _) # _ \<Rightarrow> Some (take (j - i) (x # xs)))"
  by (subst search_from.simps) (simp del: search_from.simps split: list.splits)

lemma search_from_split_no_pat: "search_from split_no_pat i s = first_digits s"
proof (induction s arbitrary: i)
  case Nil
  then show ?case by (simp add: rmatch_split_no_pat_Nil search_from_Nil del: search_from.simps)
next
  case (Cons x xs)
  show ?case
  proof (cases "is_digit x")
    case True
    then show ?thesis
      by (cases xs) (simp_all add: rmatch_split_no_pat_Cons search_from_Cons del: search_from.simps)
  next
    case False
    then show ?thesis using Cons.IH [of "Suc i"]
      by (simp add: rmatch_split_no_pat_Cons search_from_Cons del: search_from.simps)
  qed
qed

lemma re_search_split_no_pat: "re_search split_no_pat s = first_digits s"
  by (simp only: re_search_def search_from_split_no_pat)

lemma first_digits_None_iff: "first_digits s = None \<longleftrightarrow> list_all (\<lambda>c. \<not> is_digit c) s"
  by (induction s) simp_all

lemma first_digits_Some:
  "first_digits s = Some g \<Longrightarrow> g \<noteq> [] \<and> length g \<le> 2 \<and> list_all is_digit g"
proof (induction s)
  case Nil
  then show ?case by simp
next
  case (Cons x xs)
  show ?case
  proof (cases "is_digit x")
    case True
    with Cons.prems have g: "g = x # takeWhile is_digit (take 1 xs)" by simp
    have "length (takeWhile is_digit (take 1 xs)) \<le> 1"
      by (rule order_trans [OF length_takeWhile_le]) simp
    moreover have "list_all is_digit (takeWhile is_digit (take 1 xs))"
      by (simp add: list_all_iff) (meson set_takeWhileD)
    ultimately show ?thesis using g True by simp
  next
    case False
    with Cons show ?thesis by simp
  qed
qed

lemma py_int_two_digits:
  assumes "g \<noteq> []" "length g \<le> 2" "list_all is_digit g"
  shows "0 \<le> py_int g \<and> py_int g \<le> 99"
proof (cases g rule: list_upto4)
  case 1
  with assms show ?thesis by simp
next
  case (2 a)
  with assms digit_val_bounds [of a] show ?thesis by (simp add: py_int_def)
next
  case (3 a b)
  with assms digit_val_bounds [of a] digit_val_bounds [of b] show ?thesis
    by (simp add: py_int_def)
next
  case (4 a b c)
  with assms show ?thesis by simp
next
  case (5 a b c d r)
  with assms show ?thesis by simp
qed

lemma get_split_no_eq:
  "get_split_no p =
     (case first_digits (last (tokens p)) of
        None \<Rightarrow> Inl NoneTypeAttributeError
      | Some no \<Rightarrow> Inr (py_int no))"
  by (simp add: get_split_no_def py_last_tokens bind_err_def group_def re_search_split_no_pat
      split: option.splits)

lemma get_split_no_range: "get_split_no p = Inr v \<Longrightarrow> 0 \<le> v \<and> v \<le> 99"
proof -
  assume "get_split_no p = Inr v"
  then obtain g where g: "first_digits (last (tokens p)) = Some g" and v: "v = py_int g"
    by (auto simp: get_split_no_eq split: option.splits)
  from first_digits_Some [OF g] py_int_two_digits [of g] v show ?thesis by blast
qed

lemma get_split_no_errors: "get_split_no p = Inl e \<Longrightarrow> e = NoneTypeAttributeError"
  by (auto simp: get_split_no_eq split: option.splits)

lemma get_date_errors: "get_date p = Inl e \<Longrightarrow> e = IdentityError"
  by (simp add: get_date_def split: option.splits)

lemma strptime_errors: "strptime s = Inl e \<Longrightarrow> e = ValueError"
  by (simp add: strptime_def Let_def split: if_splits)

text \<open>
  C9. Whenever \<open>get_split_no\<close> returns, its value is between 0 and 99: the pattern
  \<open>\d{1,2}\<close> matches at most two digits (the last token \<open>split100\<close> gives 10). So the
  branch \<open>split_no >= 100\<close> of \<open>get_split_num_id\<close> is never taken, and
  \<open>get_split_num_id\<close> never raises that error, whatever the time zone.
\<close>

theorem get_split_no_below_100:
  "(\<forall>v. get_split_no p = Inr v \<longrightarrow> 0 \<le> v \<and> v \<le> 99) \<and>
   get_split_num_id mktime p \<noteq> Inl SplitTooLargeError \<and>
   get_split_no (Path [] [''session_split100.flac'']) = Inr 10"
proof (intro conjI allI impI)
  fix v assume "get_split_no p = Inr v"
  then show "0 \<le> v" "v \<le> 99" using get_split_no_range by blast+
next
  show "get_split_num_id mktime p \<noteq> Inl SplitTooLargeError"
  proof (cases "get_split_no p")
    case (Inl e)
    then have "e = NoneTypeAttributeError" by (rule get_split_no_errors)
    with Inl show ?thesis
      by (auto simp: get_split_num_id_def bind_err_def split: sum.splits option.splits
          dest: get_date_errors strptime_errors)
  next
    case (Inr v)
    then have "v \<le> 99" using get_split_no_range by blast
    with Inr show ?thesis
      by (auto simp: get_split_num_id_def bind_err_def split: sum.splits option.splits
          dest: get_date_errors strptime_errors)
  qed
next
  show "get_split_no (Path [] [''session_split100.flac'']) = Inr 10" by code_simp
qed

theorem get_split_no_below_100_witness:
  "get_split_no (Path [] [''session_split3.flac'']) = Inr 3 \<and> (0::int) \<le> 3 \<and> (3::int) \<le> 99 \<and>
   get_split_num_id mktime_utc (Path [] [''x_2023-05-01_split100.mid'']) \<noteq> Inl SplitTooLargeError"
proof -
  have "get_split_no (Path [] [''session_split3.flac'']) = Inr 3" by code_simp
  with get_split_no_below_100 [of "Path [] [''session_split3.flac'']" mktime_utc]
    get_split_no_below_100 [of "Path [] [''x_2023-05-01_split100.mid'']" mktime_utc]
  show ?thesis by simp
qed

lemma is_split_token_has_digit: "is_split_token t \<Longrightarrow> \<not> list_all (\<lambda>c. \<not> is_digit c) t"
proof
  assume a: "is_split_token t" and b: "list_all (\<lambda>c. \<not> is_digit c) t"
  from a have d: "digits12 (drop 5 t)" by (simp add: is_split_token_def)
  then have "drop 5 t \<noteq> []" by (auto simp: digits12_def)
  then obtain c cs where c: "drop 5 t = c # cs" by (cases "drop 5 t") auto
  with d have "is_digit c" by (simp add: digits12_def)
  moreover from c have "c \<in> set t" by (metis in_set_dropD list.set_intros(1))
  ultimately show False using b by (auto simp: list_all_iff)
qed

text \<open>
  C10. \<open>is_split\<close> looks at every token, \<open>get_split_no\<close> only at the last one: when some
  token is \<open>split\<close> followed by one or two digits and the last token has no digit (so the
  split token is not the last), \<open>is_split\<close> is true and \<open>get_split_no\<close> raises on the
  failed search.
\<close>

theorem is_split_without_split_no:
  assumes "t \<in> set (tokens p)" "is_split_token t"
    and "list_all (\<lambda>c. \<not> is_digit c) (last (tokens p))"
  shows "is_split p \<and> get_split_no p = Inl NoneTypeAttributeError \<and> t \<noteq> last (tokens p)"
proof (intro conjI)
  from assms(1,2) show "is_split p" unfolding is_split_iff by blast
  from assms(3) show "get_split_no p = Inl NoneTypeAttributeError"
    by (simp add: get_split_no_eq first_digits_None_iff [symmetric])
  from assms(2,3) is_split_token_has_digit show "t \<noteq> last (tokens p)" by blast
qed

theorem is_split_without_split_no_witness:
  "''split3'' \<in> set (tokens (Path [] [''a_split3_full.mid''])) \<and> is_split_token ''split3'' \<and>
   list_all (\<lambda>c. \<not> is_digit c) (last (tokens (Path [] [''a_split3_full.mid'']))) \<and>
   is_split (Path [] [''a_split3_full.mid'']) \<and>
   get_split_no (Path [] [''a_split3_full.mid'']) = Inl NoneTypeAttributeError"
proof -
  let ?p = "Path [] [''a_split3_full.mid'']"
  have a: "''split3'' \<in> set (tokens ?p)" by code_simp
  have b: "is_split_token ''split3''" by code_simp
  have c: "list_all (\<lambda>c. \<not> is_digit c) (last (tokens ?p))" by code_simp
  from is_split_without_split_no [OF a b c] a b c show ?thesis by blast
qed

subsection \<open>The pattern of \<open>get_session_no\<close>\<close>

lemma rmatch_session_pat_pos: "0 < i \<Longrightarrow> rmatch session_pat (i, s) = []"
  by (simp add: session_pat_def seqs_def)

lemma rmatch_session_pat:
  "rmatch session_pat (0, t) \<noteq> [] \<longleftrightarrow>
     is_session_token t \<or> before_final_newline is_session_token t"
proof (cases t rule: list_upto4)
  case 1
  then show ?thesis
    by (simp add: session_pat_def seqs_def step_if_Nil is_session_token_def
        before_final_newline_def)
next
  case (2 a)
  then show ?thesis
    by (simp add: session_pat_def seqs_def step_if_Nil step_if_Cons is_session_token_def
        before_final_newline_def)
next
  case (3 a b)
  then show ?thesis
    by (simp add: session_pat_def seqs_def step_if_Nil step_if_Cons is_session_token_def
        before_final_newline_def)
next
  case (4 a b c)
  then show ?thesis
    by (auto simp: session_pat_def seqs_def step_if_Nil step_if_Cons is_session_token_def
        before_final_newline_def)
next
  case (5 a b c d r)
  then show ?thesis
    by (cases r)
       (auto simp: session_pat_def seqs_def step_if_Nil step_if_Cons is_session_token_def
        before_final_newline_def)
qed

lemma re_search_session_pat:
  "re_search session_pat t \<noteq> None \<longleftrightarrow>
     is_session_token t \<or> before_final_newline is_session_token t"
proof -
  have "re_search session_pat t \<noteq> None \<longleftrightarrow> rmatch session_pat (0, t) \<noteq> []"
    by (simp add: re_search_anchored [of session_pat, OF rmatch_session_pat_pos]
        split: list.splits)
  then show ?thesis by (simp only: rmatch_session_pat)
qed

lemma session_no_loop_None_iff:
  "session_no_loop ts = None \<longleftrightarrow>
     (\<forall>t\<in>set ts. \<not> (is_session_token t \<or> before_final_newline is_session_token t))"
proof (induction ts)
  case Nil
  then show ?case by simp
next
  case (Cons t ts)
  show ?case
  proof (cases "re_search session_pat t \<noteq> None")
    case True
    with True [unfolded re_search_session_pat] show ?thesis by auto
  next
    case False
    with False [unfolded re_search_session_pat] Cons.IH show ?thesis by auto
  qed
qed

lemma session_no_loop_first:
  assumes "\<forall>u\<in>set pre. \<not> (is_session_token u \<or> before_final_newline is_session_token u)"
    and "is_session_token t \<or> before_final_newline is_session_token t"
  shows "session_no_loop (pre @ t # post) = Some (''a'' @ py_suffix_slice 2 t)"
  using assms(1)
proof (induction pre)
  case Nil
  from assms(2) have "re_search session_pat t \<noteq> None" by (simp only: re_search_session_pat)
  then show ?case by simp
next
  case (Cons u pre)
  then have "\<not> (is_session_token u \<or> before_final_newline is_session_token u)" by simp
  with re_search_session_pat [of u] have "re_search session_pat u = None" by blast
  with Cons show ?case by simp
qed

lemma session_token_slice:
  "is_session_token t \<Longrightarrow> py_suffix_slice 2 t = [t ! 1, t ! 2]"
  by (cases t rule: list_upto4) (simp_all add: is_session_token_def py_suffix_slice_def)

lemma get_session_no_first_session_token:
  assumes "tokens p = pre @ t # post" "is_session_token t"
    and "\<forall>u\<in>set pre. \<not> (is_session_token u \<or> before_final_newline is_session_token u)"
  shows "get_session_no p = Some [CHR ''a'', t ! 1, t ! 2]"
  using session_no_loop_first [OF assms(3), of t post] assms(1,2)
  by (simp add: get_session_no_def session_token_slice)

lemma get_session_no_None_iff:
  "get_session_no p = None \<longleftrightarrow>
     (\<forall>t\<in>set (tokens p). \<not> (is_session_token t \<or> before_final_newline is_session_token t))"
  by (simp only: get_session_no_def session_no_loop_None_iff)

subsection \<open>Tokens that end in a newline\<close>

text \<open>
  C7. \<open>is_split\<close> is true exactly when some token of the stem is \<open>split\<close> followed by
  one or two digits, or such a token followed by one newline (\<open>is_split_iff\<close>): in
  \<open>re\<close>, \<open>$\<close> also matches just before a newline that ends the text. So \<open>is_split\<close>
  is true of \<open>Path("x_split7\n.mid")\<close>, none of whose tokens is \<open>split\<close> followed by one
  or two digits in full.
\<close>

theorem is_split_final_newline:
  "tokens (Path [] [''x_split7\<newline>.mid'']) = [''x'', ''split7\<newline>''] \<and>
   \<not> is_split_token ''x'' \<and> \<not> is_split_token ''split7\<newline>'' \<and>
   is_split (Path [] [''x_split7\<newline>.mid''])"
  by code_simp

text \<open>The examples of the claim: \<open>split7\<close> and \<open>split23\<close> are found in any position,
  \<open>split100\<close> is not a split token.\<close>

lemma is_split_examples:
  "is_split (Path [] [''rach3_split7.mid''])"
  "is_split (Path [] [''rach3_split23_x.mid''])"
  "\<not> is_split (Path [] [''rach3_split100.mid''])"
  "\<not> is_split (Path [] [''rach3_2023-05-01_a01.mid''])"
  by code_simp+

text \<open>
  C4. \<open>get_session_no\<close> returns \<open>a\<close> and the two digits of the first token of the shape
  \<open>aNN\<close> or \<open>vNN\<close> when no earlier token is such a token followed by a newline
  (\<open>get_session_no_first_session_token\<close>), and \<open>None\<close> when no token matches
  (\<open>get_session_no_None_iff\<close>). But \<open>$\<close> lets the token \<open>a07\n\<close> match, and the
  slice \<open>i[-2:]\<close> of that token is \<open>7\n\<close>: the result for \<open>Path("x_a07\n.mid")\<close>
  is \<open>a7\n\<close>, not \<open>a07\<close>.
\<close>

theorem get_session_no_final_newline:
  "tokens (Path [] [''x_a07\<newline>.mid'']) = [''x'', ''a07\<newline>''] \<and>
   get_session_no (Path [] [''x_a07\<newline>.mid'']) = Some ''a7\<newline>''"
  by code_simp

lemma get_session_no_examples:
  "get_session_no (Path [] [''rach3_2023-05-01_a07.mid'']) = Some ''a07''"
  "get_session_no (Path [] [''rach3_2023-05-01_v07.mp4'']) = Some ''a07''"
  "get_session_no (Path [] [''rach3_2023-05-01_full.mp4'']) = None"
  by code_simp+

subsection \<open>The composite split id\<close>

lemma get_date_split100: "get_date (Path [] [''x_2023-05-01_split100.mid'']) = Inr ''2023-05-01''"
  by code_simp

lemma get_date_split10: "get_date (Path [] [''x_2023-05-01_split10.mid'']) = Inr ''2023-05-01''"
  by code_simp

lemma strptime_2023_05_01: "strptime ''2023-05-01'' = Inr \<lparr>year = 2023, month = 5, day = 1\<rparr>"
  by code_simp

lemma get_split_no_split100: "get_split_no (Path [] [''x_2023-05-01_split100.mid'']) = Inr 10"
  by code_simp

lemma get_split_no_split10: "get_split_no (Path [] [''x_2023-05-01_split10.mid'']) = Inr 10"
  by code_simp

text \<open>
  C1. On \<open>x_2023-05-01_split100.mid\<close> the split number read is 10, the first two digits
  of \<open>100\<close>: \<open>get_split_num_id\<close> does not raise the error of its \<open>split_no >= 100\<close>
  branch but returns the id of split 10 of that date, the same id as
  \<open>x_2023-05-01_split10.mid\<close>, in every time zone.
\<close>

theorem get_split_num_id_split100:
  "get_split_num_id mktime (Path [] [''x_2023-05-01_split100.mid'']) =
     (case mktime \<lparr>year = 2023, month = 5, day = 1\<rparr> of
        None \<Rightarrow> Inl OverflowError
      | Some secs \<Rightarrow> Inr (secs * 100 + 10)) \<and>
   get_split_num_id mktime (Path [] [''x_2023-05-01_split100.mid'']) =
   get_split_num_id mktime (Path [] [''x_2023-05-01_split10.mid''])"
  by (simp add: get_split_num_id_def bind_err_def get_date_split100 get_date_split10
      strptime_2023_05_01 get_split_no_split100 get_split_no_split10)

lemma get_date_shape: "get_date p = Inr d \<Longrightarrow> is_date_str d"
  by (auto simp: get_date_def re_search_date_pat leftmost_sub_Some_index split: option.splits)

lemma digit_val_inj: "digit_val a = digit_val b \<Longrightarrow> a = b"
  by (simp add: digit_val_def)

lemma base_step:
  fixes q q' r r' b :: int
  assumes "0 \<le> r" "r < b" "0 \<le> r'" "r' < b" "q * b + r = q' * b + r'"
  shows "q = q' \<and> r = r'"
proof -
  from assms(1,2) have b: "b \<noteq> 0" by simp
  have "(q * b + r) div b = q" using assms(1,2) b by (simp add: div_pos_pos_trivial)
  moreover have "(q' * b + r') div b = q'" using assms(3,4) b by (simp add: div_pos_pos_trivial)
  ultimately have "q = q'" using assms(5) by simp
  with assms(5) show ?thesis by simp
qed

lemma foldl_digits_inj:
  "length ds = length es \<Longrightarrow> list_all is_digit ds \<Longrightarrow> list_all is_digit es \<Longrightarrow>
   foldl (\<lambda>acc c. acc * 10 + digit_val c) x ds = foldl (\<lambda>acc c. acc * 10 + digit_val c) y es \<Longrightarrow>
   x = y \<and> ds = es"
proof (induction ds arbitrary: x y es)
  case Nil
  then show ?case by simp
next
  case (Cons d ds)
  from Cons.prems(1) obtain e es' where es: "es = e # es'" by (cases es) simp_all
  from Cons.prems(1) es have len: "length ds = length es'" by simp
  from Cons.prems(2) have dd: "is_digit d" "list_all is_digit ds" by simp_all
  from Cons.prems(3) es have ee: "is_digit e" "list_all is_digit es'" by simp_all
  from Cons.prems(4) es have f: "foldl (\<lambda>acc c. acc * 10 + digit_val c) (x * 10 + digit_val d) ds =
      foldl (\<lambda>acc c. acc * 10 + digit_val c) (y * 10 + digit_val e) es'" by simp
  from Cons.IH [OF len dd(2) ee(2) f]
  have step: "x * 10 + digit_val d = y * 10 + digit_val e" and tl: "ds = es'" by simp_all
  from digit_val_bounds [OF dd(1)] have bd: "0 \<le> digit_val d" "digit_val d < 10" by simp_all
  from digit_val_bounds [OF ee(1)] have be: "0 \<le> digit_val e" "digit_val e < 10" by simp_all
  from base_step [OF bd be step] have "x = y" "digit_val d = digit_val e" by simp_all
  with tl es show ?case by (simp add: digit_val_inj)
qed

lemma py_int_inj:
  "length ds = length es \<Longrightarrow> list_all is_digit ds \<Longrightarrow> list_all is_digit es \<Longrightarrow>
   py_int ds = py_int es \<Longrightarrow> ds = es"
  unfolding py_int_def by (drule (3) foldl_digits_inj) simp

lemma foldl_digits_nonneg:
  "0 \<le> x \<Longrightarrow> list_all is_digit ds \<Longrightarrow> 0 \<le> foldl (\<lambda>acc c. acc * 10 + digit_val c) x ds"
proof (induction ds arbitrary: x)
  case Nil
  then show ?case by simp
next
  case (Cons d ds)
  from Cons.prems digit_val_bounds [of d] have "0 \<le> x * 10 + digit_val d" by simp
  with Cons show ?case by simp
qed

lemma py_int_nonneg: "list_all is_digit ds \<Longrightarrow> 0 \<le> py_int ds"
  unfolding py_int_def by (rule foldl_digits_nonneg) simp_all

lemma nat_py_int_inj:
  assumes "length ds = length es" "list_all is_digit ds" "list_all is_digit es"
    and "nat (py_int ds) = nat (py_int es)"
  shows "ds = es"
proof -
  from py_int_nonneg [OF assms(2)] py_int_nonneg [OF assms(3)] assms(4)
  have "py_int ds = py_int es" by simp
  with assms(1-3) show ?thesis by (rule py_int_inj)
qed

lemma strptime_fields:
  "strptime [y1, y2, y3, y4, h1, m1, m2, h2, d1, d2] = Inr t \<Longrightarrow>
   year t = nat (py_int [y1, y2, y3, y4]) \<and> month t = nat (py_int [m1, m2]) \<and>
   day t = nat (py_int [d1, d2])"
  by (auto simp: strptime_def Let_def split: if_splits)

lemma strptime_inj_explicit:
  assumes dd: "is_digit y1" "is_digit y2" "is_digit y3" "is_digit y4"
      "is_digit m1" "is_digit m2" "is_digit d1" "is_digit d2"
    and ee: "is_digit z1" "is_digit z2" "is_digit z3" "is_digit z4"
      "is_digit n1" "is_digit n2" "is_digit e1" "is_digit e2"
    and s1: "strptime [y1, y2, y3, y4, CHR ''-'', m1, m2, CHR ''-'', d1, d2] = Inr t"
    and s2: "strptime [z1, z2, z3, z4, CHR ''-'', n1, n2, CHR ''-'', e1, e2] = Inr t"
  shows "[y1, y2, y3, y4] = [z1, z2, z3, z4] \<and> [m1, m2] = [n1, n2] \<and> [d1, d2] = [e1, e2]"
proof -
  note f1 = strptime_fields [OF s1] and f2 = strptime_fields [OF s2]
  have "nat (py_int [y1, y2, y3, y4]) = nat (py_int [z1, z2, z3, z4])"
    using f1 f2 by simp
  then have y: "[y1, y2, y3, y4] = [z1, z2, z3, z4]"
    using dd ee by (intro nat_py_int_inj) simp_all
  have "nat (py_int [m1, m2]) = nat (py_int [n1, n2])"
    using f1 f2 by simp
  then have m: "[m1, m2] = [n1, n2]"
    using dd ee by (intro nat_py_int_inj) simp_all
  have "nat (py_int [d1, d2]) = nat (py_int [e1, e2])"
    using f1 f2 by simp
  then have d: "[d1, d2] = [e1, e2]"
    using dd ee by (intro nat_py_int_inj) simp_all
  from y m d show ?thesis by blast
qed

lemma is_date_str_explicit_ex:
  assumes "is_date_str d"
  shows "\<exists>y1 y2 y3 y4 m1 m2 d1 d2.
    d = [y1, y2, y3, y4, CHR ''-'', m1, m2, CHR ''-'', d1, d2] \<and>
    is_digit y1 \<and> is_digit y2 \<and> is_digit y3 \<and> is_digit y4 \<and>
    is_digit m1 \<and> is_digit m2 \<and> is_digit d1 \<and> is_digit d2"
proof -
  from assms have "10 \<le> length d" by (simp add: is_date_str_def)
  from long_list10 [OF this] obtain c0 c1 c2 c3 c4 c5 c6 c7 c8 c9 r where
    d: "d = c0 # c1 # c2 # c3 # c4 # c5 # c6 # c7 # c8 # c9 # r" by blast
  with assms have r: "r = []" by (simp add: is_date_str_def)
  from assms have "c4 = CHR ''-'' \<and> c7 = CHR ''-'' \<and> is_digit c0 \<and> is_digit c1 \<and> is_digit c2 \<and>
      is_digit c3 \<and> is_digit c5 \<and> is_digit c6 \<and> is_digit c8 \<and> is_digit c9"
    unfolding d r by (simp add: is_date_str_def)
  with d r show ?thesis by simp
qed

lemma strptime_inj:
  assumes "is_date_str d" "is_date_str e" "strptime d = Inr t" "strptime e = Inr t"
  shows "d = e"
  using is_date_str_explicit_ex [OF assms(1)] is_date_str_explicit_ex [OF assms(2)]
proof (elim exE conjE)
  fix y1 y2 y3 y4 m1 m2 d1 d2 z1 z2 z3 z4 n1 n2 e1 e2
  assume d: "d = [y1, y2, y3, y4, CHR ''-'', m1, m2, CHR ''-'', d1, d2]"
    and dd: "is_digit y1" "is_digit y2" "is_digit y3" "is_digit y4"
      "is_digit m1" "is_digit m2" "is_digit d1" "is_digit d2"
    and e: "e = [z1, z2, z3, z4, CHR ''-'', n1, n2, CHR ''-'', e1, e2]"
    and ee: "is_digit z1" "is_digit z2" "is_digit z3" "is_digit z4"
      "is_digit n1" "is_digit n2" "is_digit e1" "is_digit e2"
  note s1 = assms(3) [unfolded d] and s2 = assms(4) [unfolded e]
  from strptime_inj_explicit [OF dd ee s1 s2]
  have "[y1, y2, y3, y4] = [z1, z2, z3, z4]" "[m1, m2] = [n1, n2]" "[d1, d2] = [e1, e2]"
    by blast+
  then show ?thesis unfolding d e by simp
qed

text \<open>
  C6, as the code has it. When \<open>get_date\<close> returns a string that \<open>strptime\<close> accepts as a
  date, \<open>get_split_no\<close> returns and \<open>mktime\<close> gives the seconds of the date, the id is
  \<open>seconds * 100 + split_no\<close>, the split number is the id modulo 100, and two such files
  whose dates \<open>mktime\<close> does not map to the same seconds have equal ids exactly when they
  have the same date and the same split number.
\<close>

theorem get_split_num_id_composite:
  assumes p: "get_date p = Inr dp" "strptime dp = Inr tp" "get_split_no p = Inr np"
      "mktime tp = Some sp"
    and q: "get_date q = Inr dq" "strptime dq = Inr tq" "get_split_no q = Inr nq"
      "mktime tq = Some sq"
    and inj: "sp = sq \<longrightarrow> tp = tq"
  shows "get_split_num_id mktime p = Inr (sp * 100 + np) \<and>
         (sp * 100 + np) mod 100 = np \<and>
         (get_split_num_id mktime p = get_split_num_id mktime q \<longleftrightarrow> dp = dq \<and> np = nq)"
proof -
  from get_split_no_range [OF p(3)] have np: "0 \<le> np" "np < 100" by simp_all
  from get_split_no_range [OF q(3)] have nq: "0 \<le> nq" "nq < 100" by simp_all
  from p np have idp: "get_split_num_id mktime p = Inr (sp * 100 + np)"
    by (simp add: get_split_num_id_def bind_err_def)
  from q nq have idq: "get_split_num_id mktime q = Inr (sq * 100 + nq)"
    by (simp add: get_split_num_id_def bind_err_def)
  from np have m: "(sp * 100 + np) mod 100 = np" by simp
  have dates: "tp = tq \<longleftrightarrow> dp = dq"
  proof
    assume "tp = tq"
    with p(2) q(2) strptime_inj [OF get_date_shape [OF p(1)] get_date_shape [OF q(1)]]
    show "dp = dq" by simp
  next
    assume "dp = dq"
    with p(2) q(2) show "tp = tq" by simp
  qed
  have "sp * 100 + np = sq * 100 + nq \<longleftrightarrow> sp = sq \<and> np = nq"
    using base_step [of np 100 nq sp sq] np nq by blast
  moreover have "sp = sq \<longleftrightarrow> tp = tq"
    using inj p(4) q(4) by auto
  ultimately have "get_split_num_id mktime p = get_split_num_id mktime q \<longleftrightarrow> dp = dq \<and> np = nq"
    using idp idq dates by simp
  with idp m show ?thesis by simp
qed

theorem get_split_num_id_composite_witness:
  "get_split_num_id mktime_utc (Path [] [''x_2023-05-01_split3.mid'']) = Inr 168289920003 \<and>
   (168289920003 :: int) mod 100 = 3 \<and>
   get_split_num_id mktime_utc (Path [] [''x_2023-05-01_split3.mid'']) \<noteq>
     get_split_num_id mktime_utc (Path [] [''y_2023-05-02_split3.mid'']) \<and>
   get_split_num_id mktime_utc (Path [] [''x_2023-05-01_split3.mid'']) =
     get_split_num_id mktime_utc (Path [] [''z_2023-05-01_split03.flac''])"
proof -
  let ?p = "Path [] [''x_2023-05-01_split3.mid'']"
  let ?q = "Path [] [''y_2023-05-02_split3.mid'']"
  let ?r = "Path [] [''z_2023-05-01_split03.flac'']"
  let ?t1 = "\<lparr>year = 2023, month = 5, day = 1\<rparr>"
  let ?t2 = "\<lparr>year = 2023, month = 5, day = 2\<rparr>"
  have p: "get_date ?p = Inr ''2023-05-01''" "get_split_no ?p = Inr 3" by code_simp+
  have q: "get_date ?q = Inr ''2023-05-02''" "get_split_no ?q = Inr 3" by code_simp+
  have r: "get_date ?r = Inr ''2023-05-01''" "get_split_no ?r = Inr 3" by code_simp+
  have t1: "strptime ''2023-05-01'' = Inr ?t1" by code_simp
  have t2: "strptime ''2023-05-02'' = Inr ?t2" by code_simp
  have s1: "mktime_utc ?t1 = Some 1682899200" by code_simp
  have s2: "mktime_utc ?t2 = Some 1682985600" by code_simp
  have ne: "(1682899200 :: int) = 1682985600 \<longrightarrow> ?t1 = ?t2" by simp
  have eq: "(1682899200 :: int) = 1682899200 \<longrightarrow> ?t1 = ?t1" by simp
  from get_split_num_id_composite [where mktime = mktime_utc, OF p(1) t1 p(2) s1 q(1) t2 q(2) s2 ne]
    get_split_num_id_composite [where mktime = mktime_utc, OF p(1) t1 p(2) s1 r(1) t1 r(2) s1 eq]
  show ?thesis by auto
qed

text \<open>C6 as stated fails: on \<open>x_2023-02-30_split3.mid\<close> both \<open>get_date\<close> and
  \<open>get_split_no\<close> return, and \<open>strptime\<close> raises \<open>ValueError\<close> on the 30th of
  February.\<close>

theorem get_split_num_id_invalid_date:
  "get_date (Path [] [''x_2023-02-30_split3.mid'']) = Inr ''2023-02-30'' \<and>
   get_split_no (Path [] [''x_2023-02-30_split3.mid'']) = Inr 3 \<and>
   get_split_num_id mktime_utc (Path [] [''x_2023-02-30_split3.mid'']) = Inl ValueError"
  by code_simp

subsection \<open>The file numbers\<close>

lemma rmatch_fileno_a_pat:
  "rmatch fileno_a_pat (i, s) = (if is_fileno_a (take 3 s) then [(i + 3, drop 3 s)] else [])"
proof (cases s rule: list_upto4)
  case (4 a b c)
  then show ?thesis
    by (simp add: fileno_a_pat_def seqs_def is_fileno_a_def step_if_Cons eval_nat_numeral)
next
  case (5 a b c d r)
  then show ?thesis
    by (simp add: fileno_a_pat_def seqs_def is_fileno_a_def step_if_Cons eval_nat_numeral)
qed (simp_all add: fileno_a_pat_def seqs_def is_fileno_a_def step_if_Cons step_if_Nil
      eval_nat_numeral)

lemma rmatch_fileno_p_pat:
  "rmatch fileno_p_pat (i, s) = (if is_fileno_p (take 4 s) then [(i + 4, drop 4 s)] else [])"
proof (cases s rule: list_upto4)
  case (5 a b c d r)
  then show ?thesis
    by (simp add: fileno_p_pat_def seqs_def is_fileno_p_def step_if_Cons eval_nat_numeral)
qed (simp_all add: fileno_p_pat_def seqs_def is_fileno_p_def step_if_Cons step_if_Nil
      eval_nat_numeral)

lemma re_search_fileno_a_pat: "re_search fileno_a_pat s = leftmost_sub is_fileno_a 3 s"
  unfolding re_search_def by (rule search_from_fixed) (rule rmatch_fileno_a_pat)

lemma re_search_fileno_p_pat: "re_search fileno_p_pat s = leftmost_sub is_fileno_p 4 s"
  unfolding re_search_def by (rule search_from_fixed) (rule rmatch_fileno_p_pat)

lemma get_fileno_a_eq:
  "get_fileno_a p =
     (case leftmost_sub is_fileno_a 3 (str_of p) of
        None \<Rightarrow> Inl NoneTypeAttributeError
      | Some g \<Rightarrow> Inr (py_int (py_suffix_slice 2 g)))"
  by (simp add: get_fileno_a_def group_def bind_err_def re_search_fileno_a_pat
      split: option.splits)

lemma get_fileno_p_eq:
  "get_fileno_p p =
     (case leftmost_sub is_fileno_p 4 (str_of p) of
        None \<Rightarrow> Inl NoneTypeAttributeError
      | Some g \<Rightarrow> Inr (py_int (py_suffix_slice 3 g)))"
  by (simp add: get_fileno_p_def group_def bind_err_def re_search_fileno_p_pat
      split: option.splits)

lemma str_of_single: "str_of (Path [] [n]) = n" "name (Path [] [n]) = n"
  by (simp_all add: str_of_def name_def)

text \<open>
  C8. \<open>get_fileno_a\<close> and \<open>get_fileno_p\<close> search \<open>str(file)\<close>, the whole path, where
  \<open>get_date\<close> searches \<open>file.name\<close>. A directory whose name contains the pattern is
  found first: for \<open>Path("a12/x.mid")\<close> the name \<open>x.mid\<close> has no match and
  \<open>get_fileno_a\<close> returns 12; for \<open>Path("/data01/rach3_2023-05-01_a07.mid")\<close> the first
  match of the name is \<open>a07\<close> and \<open>get_fileno_a\<close> returns 1; for
  \<open>Path("p123/x.mp4")\<close> \<open>get_fileno_p\<close> returns 123.
\<close>

theorem get_fileno_searches_directories:
  "str_of (Path [] [''a12'', ''x.mid'']) = ''a12/x.mid'' \<and>
   name (Path [] [''a12'', ''x.mid'']) = ''x.mid'' \<and>
   re_search fileno_a_pat ''x.mid'' = None \<and>
   get_fileno_a (Path [] [''a12'', ''x.mid'']) = Inr 12 \<and>
   name (Path ''/'' [''data01'', ''rach3_2023-05-01_a07.mid'']) = ''rach3_2023-05-01_a07.mid'' \<and>
   re_search fileno_a_pat ''rach3_2023-05-01_a07.mid'' = Some ''a07'' \<and>
   get_fileno_a (Path ''/'' [''data01'', ''rach3_2023-05-01_a07.mid'']) = Inr 1 \<and>
   name (Path [] [''p123'', ''x.mp4'']) = ''x.mp4'' \<and>
   re_search fileno_p_pat ''x.mp4'' = None \<and>
   get_fileno_p (Path [] [''p123'', ''x.mp4'']) = Inr 123"
  by code_simp

end
